theory Spec2Isabelle
  imports Main "HOL-Library.Sublist" "HOL-Library.Multiset"
begin

chapter \<open>The model\<close>

section \<open>JavaScript strings\<close>

text \<open>
  Strings are lists of code units, each a \<open>char\<close>: the texts whose code units lie below 256.
  The helpers below are the \<^verbatim>\<open>String.prototype\<close> methods the
  providers call, with the results JavaScript gives: \<^verbatim>\<open>indexOf\<close> and \<^verbatim>\<open>lastIndexOf\<close>
  answer \<open>-1\<close> when the needle does not occur, \<^verbatim>\<open>substring\<close> clamps its arguments to the
  string and swaps them when they are out of order.
\<close>

fun indexOf_from :: "string \<Rightarrow> string \<Rightarrow> nat \<Rightarrow> int" where
  "indexOf_from [] needle i = (if needle = [] then int i else - 1)"
| "indexOf_from (c # cs) needle i =
     (if prefix needle (c # cs) then int i else indexOf_from cs needle (Suc i))"

definition indexOf :: "string \<Rightarrow> string \<Rightarrow> int" where
  "indexOf s needle = indexOf_from s needle 0"

fun lastIndexOf_from :: "string \<Rightarrow> string \<Rightarrow> nat \<Rightarrow> int \<Rightarrow> int" where
  "lastIndexOf_from [] needle i found = (if needle = [] then int i else found)"
| "lastIndexOf_from (c # cs) needle i found =
     lastIndexOf_from cs needle (Suc i) (if prefix needle (c # cs) then int i else found)"

definition lastIndexOf :: "string \<Rightarrow> string \<Rightarrow> int" where
  "lastIndexOf s needle = lastIndexOf_from s needle 0 (- 1)"

definition substring :: "string \<Rightarrow> nat \<Rightarrow> nat \<Rightarrow> string" where
  "substring s a b =
     (let a' = min a (length s); b' = min b (length s)
      in take (max a' b' - min a' b') (drop (min a' b') s))"

definition substr :: "string \<Rightarrow> nat \<Rightarrow> nat \<Rightarrow> string" where
  "substr s start len = take len (drop start s)"

fun split_on :: "char \<Rightarrow> string \<Rightarrow> string list" where
  "split_on sep [] = [[]]"
| "split_on sep (c # cs) =
     (if c = sep then [] # split_on sep cs
      else (case split_on sep cs of [] \<Rightarrow> [[c]] | w # ws \<Rightarrow> (c # w) # ws))"

section \<open>Regular expressions\<close>

text \<open>
  The providers classify text with \<^verbatim>\<open>RegExp\<close> objects. A pattern is a term of \<open>re\<close>;
  \<open>m\<close> is the backtracking matcher of the language standard: it returns every way the
  pattern can match at the start of the input, in the order in which backtracking tries
  them, each with the input that is left and the capture groups set so far. A greedy
  quantifier lists the longer iterations first, a lazy one the shorter; an iteration that
  consumes nothing is rejected, and the groups inside a quantified pattern are cleared when
  an iteration starts. A class lists its members among the code units below 256, and the
  groups of a pattern are numbered 1, 2, ... from the left.
\<close>

datatype re =
    Chr char
  | Cls bool "char list"
  | Eps
  | Eoi
  | Seq re re
  | Alt re re
  | Star bool re
  | Grp nat re

type_synonym caps = "(nat \<times> string) list"

type_synonym mstate = "string \<times> caps"

fun groups :: "re \<Rightarrow> nat list" where
  "groups (Seq a b) = groups a @ groups b"
| "groups (Alt a b) = groups a @ groups b"
| "groups (Star g a) = groups a"
| "groups (Grp n a) = n # groups a"
| "groups (Chr c) = []"
| "groups (Cls neg cs) = []"
| "groups Eps = []"
| "groups Eoi = []"

definition clear :: "re \<Rightarrow> caps \<Rightarrow> caps" where
  "clear r k = filter (\<lambda>p. fst p \<notin> set (groups r)) k"

function m :: "re \<Rightarrow> mstate \<Rightarrow> mstate list" where
  "m (Chr c) st =
     (case fst st of [] \<Rightarrow> [] | x # xs \<Rightarrow> if x = c then [(xs, snd st)] else [])"
| "m (Cls neg cs) st =
     (case fst st of [] \<Rightarrow> []
      | x # xs \<Rightarrow> if (x \<in> set cs) \<noteq> neg then [(xs, snd st)] else [])"
| "m Eps st = [st]"
| "m Eoi st = (if fst st = [] then [st] else [])"
| "m (Seq a b) st = concat (map (m b) (m a st))"
| "m (Alt a b) st = m a st @ m b st"
| "m (Grp n a) st =
     map (\<lambda>st'. (fst st', (n, take (length (fst st) - length (fst st')) (fst st)) # snd st'))
         (m a st)"
| "m (Star greedy a) st =
     (let more = concat (map (\<lambda>st'. if length (fst st') < length (fst st)
                                        then m (Star greedy a) st' else [])
                             (m a (fst st, clear a (snd st))))
      in if greedy then more @ [st] else st # more)"
  by pat_completeness auto
termination
  by (relation "measure size <*lex*> measure (\<lambda>st. length (fst st))") auto

text \<open>Pattern shorthands: a literal string, \<^verbatim>\<open>r?\<close>, \<^verbatim>\<open>r+\<close>, and a literal under the
  \<^verbatim>\<open>i\<close> flag (each letter matches in either case).\<close>

fun lit :: "string \<Rightarrow> re" where
  "lit [] = Eps"
| "lit [c] = Chr c"
| "lit (c # cs) = Seq (Chr c) (lit cs)"

definition opt :: "re \<Rightarrow> re" where
  "opt r = Alt r Eps"

definition plus :: "re \<Rightarrow> re" where
  "plus r = Seq r (Star True r)"

definition lower :: string where
  "lower = ''abcdefghijklmnopqrstuvwxyz''"

definition upper :: string where
  "upper = ''ABCDEFGHIJKLMNOPQRSTUVWXYZ''"

definition digit :: string where
  "digit = ''0123456789''"

definition other_case :: "char \<Rightarrow> char" where
  "other_case c =
     (case map_of (zip (lower @ upper) (upper @ lower)) c of None \<Rightarrow> c | Some d \<Rightarrow> d)"

fun lit_i :: "string \<Rightarrow> re" where
  "lit_i [] = Eps"
| "lit_i [c] = Cls False [c, other_case c]"
| "lit_i (c # cs) = Seq (Cls False [c, other_case c]) (lit_i cs)"

text \<open>The character classes of the patterns: \<^verbatim>\<open>\w\<close>, \<^verbatim>\<open>\s\<close>, \<^verbatim>\<open>\S\<close>, \<^verbatim>\<open>.\<close>, the
  quotes \<^verbatim>\<open>["']\<close> and the identifier class \<^verbatim>\<open>[-a-zA-Z0-9-_]\<close>. White space is the
  space, the tab, the line feed, the vertical tab, the form feed, the carriage return and the
  no-break space; \<^verbatim>\<open>.\<close> is every code unit but the line feed and the carriage return.\<close>

definition dquote :: char where
  "dquote = CHR 0x22"

definition squote :: char where
  "squote = CHR 0x27"

definition word_chars :: string where
  "word_chars = lower @ upper @ digit @ ''_''"

definition space_chars :: string where
  "space_chars = [CHR '' '', CHR 0x09, CHR 0x0A, CHR 0x0B, CHR 0x0C, CHR 0x0D, CHR 0xA0]"

definition re_w :: re where
  "re_w = Cls False word_chars"

definition re_s :: re where
  "re_s = Cls False space_chars"

definition re_S :: re where
  "re_S = Cls True space_chars"

definition re_dot :: re where
  "re_dot = Cls True [CHR 0x0A, CHR 0x0D]"

definition re_quote :: re where
  "re_quote = Cls False [dquote, squote]"

definition id_chars :: string where
  "id_chars = ''-'' @ lower @ upper @ digit @ ''-_''"

definition re_id :: re where
  "re_id = Cls False id_chars"

subsection \<open>RegExp objects\<close>

text \<open>
  A \<^verbatim>\<open>RegExp\<close> object carries its pattern, the \<^verbatim>\<open>g\<close> flag and \<^verbatim>\<open>lastIndex\<close>.
  \<open>exec\<close> is \<^verbatim>\<open>RegExp.prototype.exec\<close>: it searches from \<^verbatim>\<open>lastIndex\<close> when the
  object is global and from 0 otherwise, returns the leftmost match (its index and the array
  of the whole match and the groups) and the object as the call leaves it.
\<close>

record RegExp =
  source :: re
  global :: bool
  lastIndex :: nat

record RegExpExecArray =
  index :: nat
  end_index :: nat
  elems :: "string option list"

fun search :: "re \<Rightarrow> string \<Rightarrow> nat \<Rightarrow> (nat \<times> mstate) option" where
  "search r [] i = (case m r ([], []) of [] \<Rightarrow> None | st # _ \<Rightarrow> Some (i, st))"
| "search r (c # s) i =
     (case m r (c # s, []) of [] \<Rightarrow> search r s (Suc i) | st # _ \<Rightarrow> Some (i, st))"

definition exec :: "RegExp \<Rightarrow> string \<Rightarrow> RegExpExecArray option \<times> RegExp" where
  "exec rx s =
     (let start = (if global rx then lastIndex rx else 0);
          failed = (if global rx then rx\<lparr>lastIndex := 0\<rparr> else rx)
      in if length s < start then (None, failed)
         else (case search (source rx) (drop start s) start of
                 None \<Rightarrow> (None, failed)
               | Some (i, st) \<Rightarrow>
                   (let e = length s - length (fst st)
                    in (Some \<lparr>index = i, end_index = e,
                               elems = Some (take (e - i) (drop i s))
                                       # map (map_of (snd st))
                                             [1 ..< Suc (length (groups (source rx)))]\<rparr>,
                        if global rx then rx\<lparr>lastIndex := e\<rparr> else rx))))"

definition test :: "RegExp \<Rightarrow> string \<Rightarrow> bool \<times> RegExp" where
  "test rx s = (case exec rx s of (r, rx') \<Rightarrow> (r \<noteq> None, rx'))"

text \<open>A regular expression literal evaluates to a fresh object: \<open>regex\<close> without flags,
  \<open>regex_g\<close> with \<^verbatim>\<open>g\<close>. \<open>tests\<close> and \<open>match\<close> are \<^verbatim>\<open>/re/.test(s)\<close> and
  \<^verbatim>\<open>s.match(/re/)\<close> on such a literal.\<close>

definition regex :: "re \<Rightarrow> RegExp" where
  "regex r = \<lparr>source = r, global = False, lastIndex = 0\<rparr>"

definition regex_g :: "re \<Rightarrow> RegExp" where
  "regex_g r = \<lparr>source = r, global = True, lastIndex = 0\<rparr>"

definition tests :: "re \<Rightarrow> string \<Rightarrow> bool" where
  "tests r s = fst (test (regex r) s)"

definition match :: "string \<Rightarrow> re \<Rightarrow> RegExpExecArray option" where
  "match s r = fst (exec (regex r) s)"

definition elem :: "RegExpExecArray \<Rightarrow> nat \<Rightarrow> string option" where
  "elem a n = (if n < length (elems a) then elems a ! n else None)"

text \<open>\<open>exec_from r s i\<close> is one \<^verbatim>\<open>exec\<close> call of a loop over a global pattern whose
  \<^verbatim>\<open>lastIndex\<close> is \<open>i\<close>: the match and the \<^verbatim>\<open>lastIndex\<close> the call leaves.\<close>

definition exec_from :: "re \<Rightarrow> string \<Rightarrow> nat \<Rightarrow> (RegExpExecArray \<times> nat) option" where
  "exec_from r s i =
     (case exec ((regex_g r)\<lparr>lastIndex := i\<rparr>) s of
        (None, rx') \<Rightarrow> None
      | (Some a, rx') \<Rightarrow> Some (a, lastIndex rx'))"

fun nonempty :: "re \<Rightarrow> bool" where
  "nonempty (Chr c) = True"
| "nonempty (Cls neg cs) = True"
| "nonempty Eps = False"
| "nonempty Eoi = False"
| "nonempty (Seq a b) = (nonempty a \<or> nonempty b)"
| "nonempty (Alt a b) = (nonempty a \<and> nonempty b)"
| "nonempty (Star g a) = False"
| "nonempty (Grp n a) = nonempty a"

text \<open>\<open>within A r\<close>: the pattern \<open>r\<close> consumes characters of \<open>A\<close> only.\<close>

fun within :: "char set \<Rightarrow> re \<Rightarrow> bool" where
  "within A (Chr c) = (c \<in> A)"
| "within A (Cls neg cs) = (\<not> neg \<and> set cs \<subseteq> A)"
| "within A Eps = True"
| "within A Eoi = True"
| "within A (Seq a b) = (within A a \<and> within A b)"
| "within A (Alt a b) = (within A a \<and> within A b)"
| "within A (Star g a) = within A a"
| "within A (Grp n a) = within A a"

subsection \<open>Every match of a consuming pattern advances the search\<close>

declare m.simps(8) [simp del]

lemma m_Star_cases:
  assumes "st' \<in> set (m (Star greedy a) st)"
  shows "st' = st \<or> (\<exists>mid. mid \<in> set (m a (fst st, clear a (snd st))) \<and>
        length (fst mid) < length (fst st) \<and> st' \<in> set (m (Star greedy a) mid))"
  using assms by (subst (asm) m.simps(8)) (auto simp: Let_def split: if_splits)

lemma m_length_le: "st' \<in> set (m r st) \<Longrightarrow> length (fst st') \<le> length (fst st)"
proof (induction r st arbitrary: st' rule: m.induct)
  case (5 a b st)
  from "5.prems" obtain mid where mid: "mid \<in> set (m a st)" "st' \<in> set (m b mid)"
    by auto
  from "5.IH"(1)[OF mid(1)] "5.IH"(2)[OF mid] show ?case by simp
next
  case (8 greedy a st)
  from m_Star_cases[OF "8.prems"] consider "st' = st"
    | mid where "mid \<in> set (m a (fst st, clear a (snd st)))"
        "length (fst mid) < length (fst st)" "st' \<in> set (m (Star greedy a) mid)"
    by blast
  then show ?case
  proof cases
    case 1
    then show ?thesis by simp
  next
    case 2
    from "8.IH"(2)[OF 2(1) 2(2) 2(3)] 2(2) show ?thesis by simp
  qed
qed (auto split: list.splits if_splits)

lemma m_nonempty_less:
  "nonempty r \<Longrightarrow> st' \<in> set (m r st) \<Longrightarrow> length (fst st') < length (fst st)"
proof (induction r arbitrary: st st')
  case (Seq a b)
  from Seq.prems(2) obtain mid where mid: "mid \<in> set (m a st)" "st' \<in> set (m b mid)"
    by auto
  from Seq.prems(1) have "nonempty a \<or> nonempty b" by simp
  then show ?case
  proof
    assume "nonempty a"
    with Seq.IH(1) mid(1) m_length_le[OF mid(2)] show ?thesis by fastforce
  next
    assume "nonempty b"
    with Seq.IH(2) mid(2) m_length_le[OF mid(1)] show ?thesis by fastforce
  qed
qed (auto split: list.splits if_splits)

lemma search_Some:
  "search r s i = Some (j, st) \<Longrightarrow>
     \<exists>k. j = i + k \<and> k \<le> length s \<and> st \<in> set (m r (drop k s, []))"
proof (induction s arbitrary: i)
  case Nil
  then show ?case by (auto split: list.splits)
next
  case (Cons c s)
  show ?case
  proof (cases "m r (c # s, [])")
    case Nil
    with Cons.prems have "search r s (Suc i) = Some (j, st)" by simp
    from Cons.IH[OF this] obtain k where
      "j = Suc i + k" "k \<le> length s" "st \<in> set (m r (drop k s, []))"
      by auto
    then show ?thesis by (intro exI[of _ "Suc k"]) simp
  next
    case (Cons a list)
    with Cons.prems show ?thesis by (intro exI[of _ 0]) auto
  qed
qed

lemma exec_from_progress:
  assumes "nonempty r" "exec_from r s i = Some (a, i')"
  shows "i < i' \<and> i' \<le> length s \<and> i \<le> index a \<and> end_index a = i'"
proof -
  from assms(2) have le: "i \<le> length s"
    by (auto simp: exec_from_def exec_def regex_g_def Let_def split: if_splits)
  from assms(2) obtain j st where s: "search r (drop i s) i = Some (j, st)"
    and i': "i' = length s - length (fst st)" and a: "index a = j" "end_index a = i'"
    by (auto simp: exec_from_def exec_def regex_g_def Let_def split: if_splits option.splits)
  from search_Some[OF s] obtain k where k: "j = i + k" "k \<le> length (drop i s)"
    "st \<in> set (m r (drop k (drop i s), []))" by blast
  from m_nonempty_less[OF assms(1) k(3)] have "length (fst st) < length s - i - k" by simp
  with le k i' a show ?thesis by auto
qed

section \<open>Text documents of the editor\<close>

text \<open>
  A text document is its text; lines end at a line feed. \<open>positionAt\<close>, \<open>offsetAt\<close> and
  \<open>getText\<close> are the editor's: a position past the end of a line is clamped to the line's
  end, a line past the last one to the end of the text.
\<close>

record Position =
  line :: nat
  character :: nat

record Range =
  range_start :: Position
  range_end :: Position

type_synonym TextDocument = string

definition newline :: char where
  "newline = CHR 0x0A"

definition position_le :: "Position \<Rightarrow> Position \<Rightarrow> bool" where
  "position_le p q = (line p < line q \<or> (line p = line q \<and> character p \<le> character q))"

definition mkRange :: "nat \<Rightarrow> nat \<Rightarrow> nat \<Rightarrow> nat \<Rightarrow> Range" where
  "mkRange l1 c1 l2 c2 =
     (let a = \<lparr>line = l1, character = c1\<rparr>; b = \<lparr>line = l2, character = c2\<rparr>
      in if position_le a b then \<lparr>range_start = a, range_end = b\<rparr>
         else \<lparr>range_start = b, range_end = a\<rparr>)"

fun offsetAt_from :: "string \<Rightarrow> nat \<Rightarrow> nat \<Rightarrow> nat" where
  "offsetAt_from [] l c = 0"
| "offsetAt_from (x # xs) 0 0 = 0"
| "offsetAt_from (x # xs) 0 (Suc c) = (if x = newline then 0 else Suc (offsetAt_from xs 0 c))"
| "offsetAt_from (x # xs) (Suc l) c =
     Suc (if x = newline then offsetAt_from xs l c else offsetAt_from xs (Suc l) c)"

definition offsetAt :: "TextDocument \<Rightarrow> Position \<Rightarrow> nat" where
  "offsetAt d p = offsetAt_from d (line p) (character p)"

fun positionAt :: "TextDocument \<Rightarrow> nat \<Rightarrow> Position" where
  "positionAt [] n = \<lparr>line = 0, character = 0\<rparr>"
| "positionAt (x # xs) 0 = \<lparr>line = 0, character = 0\<rparr>"
| "positionAt (x # xs) (Suc n) =
     (let p = positionAt xs n
      in if x = newline then p\<lparr>line := Suc (line p)\<rparr>
         else if line p = 0 then p\<lparr>character := Suc (character p)\<rparr> else p)"

definition getText :: "TextDocument \<Rightarrow> Range \<Rightarrow> string" where
  "getText d r =
     (let a = offsetAt d (range_start r); b = offsetAt d (range_end r)
      in take (b - a) (drop a d))"

definition doc_lines :: "TextDocument \<Rightarrow> string list" where
  "doc_lines d = split_on newline d"

section \<open>Completion items and the completion catalog\<close>

datatype CompletionItemKind = Class | Method | Property | Event | Reference

datatype InsertText = PlainText string | SnippetString string

record CompletionItem =
  label :: string
  kind :: CompletionItemKind
  detail :: "string option"
  insertText :: "InsertText option"
  item_range :: "Range option"

definition item :: "string \<Rightarrow> CompletionItemKind \<Rightarrow> CompletionItem" where
  "item l k = \<lparr>label = l, kind = k, detail = None, insertText = None, item_range = None\<rparr>"

text \<open>
  The catalog that \<^verbatim>\<open>completion.loadCompletions\<close> supplies: objects keyed by name, kept as
  association lists in the order in which \<^verbatim>\<open>Object.keys\<close> enumerates them. A tag of
  \<^verbatim>\<open>alloy.tags\<close> is kept as its \<^verbatim>\<open>apiName\<close>.

  \<open>lookup obj key\<close> is the property access \<^verbatim>\<open>obj[key]\<close>: the value under a key of the object
  itself, or else a member that every object inherits from \<^verbatim>\<open>Object.prototype\<close>, or else
  \<^verbatim>\<open>undefined\<close>. An inherited member is truthy and has none of the catalog's fields.
\<close>

definition object_prototype :: "string list" where
  "object_prototype =
     [''constructor'', ''hasOwnProperty'', ''isPrototypeOf'', ''propertyIsEnumerable'',
      ''toLocaleString'', ''toString'', ''valueOf'', ''__proto__'', ''__defineGetter__'',
      ''__defineSetter__'', ''__lookupGetter__'', ''__lookupSetter__'']"

datatype 'a lookup = Own 'a | Inherited | Undefined

definition lookup :: "(string \<times> 'a) list \<Rightarrow> string \<Rightarrow> 'a lookup" where
  "lookup obj key =
     (case map_of obj key of
        Some v \<Rightarrow> Own v
      | None \<Rightarrow> if key \<in> set object_prototype then Inherited else Undefined)"

record TypeEntry =
  type_functions :: "string list"
  type_properties :: "string list"
  type_events :: "string list"

record Completions =
  alloy_tags :: "(string \<times> string) list"
  alloy_types :: "(string \<times> TypeEntry) list"
  titanium_types :: "(string \<times> TypeEntry) list"

datatype error = TypeError | LoadFailed | OpenFailed | HostError

text \<open>
  What the provider reads from its surroundings: the outcome of loading the catalog, the
  related view file, the files the workspace can open, the host's word range, and the
  helpers of modules outside the provider (\<^verbatim>\<open>utils.matches\<close>, the JS files under a
  directory of the Alloy root, the widget dependencies of \<^verbatim>\<open>config.json\<close>, the Alloy
  auto-complete rules, whose patterns carry no flag).
\<close>

record AlloyAutoCompleteRule =
  rule_regExp :: re
  requireRange :: bool
  rangeRegex :: re
  getCompletions :: "Range option \<Rightarrow> error + CompletionItem list"

record Env =
  loadCompletions :: "error + Completions"
  getTargetPath_xml :: "string option"
  openTextDocument :: "string \<Rightarrow> string option"
  getWordRangeAtPosition :: "TextDocument \<Rightarrow> Position \<Rightarrow> re \<Rightarrow> Range option"
  utils_matches :: "string \<Rightarrow> string \<Rightarrow> bool"
  filterJSFiles :: "string \<Rightarrow> string list option"
  configDependencies :: "error + string list"
  alloyAutoCompleteRules :: "AlloyAutoCompleteRule list"

section \<open>The controller completion provider\<close>

fun seqs :: "re list \<Rightarrow> re" where
  "seqs [] = Eps"
| "seqs [r] = r"
| "seqs (r # rs) = Seq r (seqs rs)"

text \<open>The patterns of the cascade of \<^verbatim>\<open>provideCompletionItems\<close>, in the order of the source.\<close>

definition re_xml_id :: re where
  \<comment> \<open>\<^verbatim>\<open>/\$\.([-a-zA-Z0-9-_]*)$/\<close>\<close>
  "re_xml_id = seqs [lit ''$.'', Grp 1 (Star True re_id), Eoi]"

definition re_member :: re where
  \<comment> \<open>\<^verbatim>\<open>/\$\.([-a-zA-Z0-9-_]*).([-a-zA-Z0-9-_]*)$/\<close>\<close>
  "re_member = seqs [lit ''$.'', Grp 1 (Star True re_id), re_dot, Grp 2 (Star True re_id), Eoi]"

definition re_titanium :: re where
  \<comment> \<open>\<^verbatim>\<open>/(?:Ti|Titanium)\.?\S+/i\<close>\<close>
  "re_titanium = seqs [Alt (lit_i ''Ti'') (lit_i ''Titanium''), opt (Chr CHR ''.''), plus re_S]"

definition re_event :: re where
  \<comment> \<open>\<^verbatim>\<open>/\$\.([-a-zA-Z0-9-_]*)\.(add|remove)EventListener\(["']([-a-zA-Z0-9-_/]*)$/\<close>\<close>
  "re_event = seqs [lit ''$.'', Grp 1 (Star True re_id), Chr CHR ''.'',
                    Grp 2 (Alt (lit ''add'') (lit ''remove'')), lit ''EventListener('',
                    re_quote, Grp 3 (Star True (Cls False (id_chars @ ''/''))), Eoi]"

definition re_require :: re where
  \<comment> \<open>\<^verbatim>\<open>/require\(["']?([^'");]*)["']?\)?$/\<close>\<close>
  "re_require = seqs [lit ''require('', opt re_quote,
                      Grp 1 (Star True (Cls True [squote, dquote, CHR '')'', CHR '';''])),
                      opt re_quote, opt (Chr CHR '')''), Eoi]"

definition re_controller :: re where
  \<comment> \<open>\<^verbatim>\<open>/Alloy\.(createController|Controllers\.instance)\(["']([-a-zA-Z0-9-_/]*["']?\)?)$/\<close>\<close>
  "re_controller = seqs [lit ''Alloy.'',
                         Grp 1 (Alt (lit ''createController'') (lit ''Controllers.instance'')),
                         Chr CHR ''('', re_quote,
                         Grp 2 (seqs [Star True (Cls False (id_chars @ ''/'')), opt re_quote,
                                      opt (Chr CHR '')'')]),
                         Eoi]"

definition re_model :: re where
  \<comment> \<open>\<^verbatim>\<open>/Alloy\.(createModel|Models\.instance|createCollection|Collections\.instance)\(["']([-a-zA-Z0-9-_/]*)$/\<close>\<close>
  "re_model = seqs [lit ''Alloy.'',
                    Grp 1 (Alt (lit ''createModel'') (Alt (lit ''Models.instance'')
                          (Alt (lit ''createCollection'') (lit ''Collections.instance'')))),
                    Chr CHR ''('', re_quote, Grp 2 (Star True (Cls False (id_chars @ ''/''))), Eoi]"

definition re_widget :: re where
  \<comment> \<open>\<^verbatim>\<open>/Alloy\.(createWidget|Widgets\.instance)\(["']([-a-zA-Z0-9-_/.]*)$/\<close>\<close>
  "re_widget = seqs [lit ''Alloy.'',
                     Grp 1 (Alt (lit ''createWidget'') (lit ''Widgets.instance'')),
                     Chr CHR ''('', re_quote, Grp 2 (Star True (Cls False (id_chars @ ''/.''))), Eoi]"

definition re_alloy :: re where
  \<comment> \<open>\<^verbatim>\<open>/(?:Alloy)\.?\S+/\<close>\<close>
  "re_alloy = seqs [lit ''Alloy'', opt (Chr CHR ''.''), plus re_S]"

subsection \<open>getIdCompletions\<close>

definition re_id_attr :: re where
  \<comment> \<open>\<^verbatim>\<open>/id="(.+?)"/g\<close>\<close>
  "re_id_attr = seqs [lit ''id='', Chr dquote, Grp 1 (Seq re_dot (Star False re_dot)), Chr dquote]"

lemma nonempty_re_id_attr: "nonempty re_id_attr"
  by (simp add: re_id_attr_def)

text \<open>The loop over the successive matches of the pattern in the view's text: \<open>i\<close> is the
  pattern's \<^verbatim>\<open>lastIndex\<close>, \<open>ids\<close> the values seen so far. Group 1 takes part in every
  match, so the last case is never taken.\<close>

function idLoop ::
  "string \<Rightarrow> string \<Rightarrow> nat \<Rightarrow> string list \<Rightarrow> CompletionItem list \<Rightarrow> CompletionItem list" where
  "idLoop fileName text i ids completions =
     (case exec_from re_id_attr text i of
        None \<Rightarrow> completions
      | Some (matches, i') \<Rightarrow>
          (case elem matches 1 of
             Some id' \<Rightarrow>
               if id' \<in> set ids then idLoop fileName text i' ids completions
               else idLoop fileName text i' (ids @ [id'])
                      (completions @ [(item id' Reference)\<lparr>detail := Some fileName\<rparr>])
           | None \<Rightarrow> idLoop fileName text i' ids completions))"
  by pat_completeness auto
termination
proof (relation "measure (\<lambda>(fileName, text, i, ids, completions). Suc (length text) - i)")
qed (use exec_from_progress[OF nonempty_re_id_attr] in \<open>auto, fastforce+\<close>)

definition getIdCompletions :: "Env \<Rightarrow> error + CompletionItem list" where
  "getIdCompletions env =
     (case getTargetPath_xml env of
        None \<Rightarrow> Inr []
      | Some relatedFile \<Rightarrow>
          if relatedFile = [] then Inr []
          else (case openTextDocument env relatedFile of
                  None \<Rightarrow> Inl OpenFailed
                | Some text \<Rightarrow> Inr (idLoop (last (split_on CHR ''/'' relatedFile)) text 0 [] [])))"

subsection \<open>Resolving an id of the view to its tag\<close>

definition re_id_dot :: re where
  \<comment> \<open>\<^verbatim>\<open>/\$\.([-a-zA-Z0-9-_]*)\.?$/\<close>\<close>
  "re_id_dot = seqs [lit ''$.'', Grp 1 (Star True re_id), opt (Chr CHR ''.''), Eoi]"

definition re_id_of :: "string \<Rightarrow> re" where
  \<comment> \<open>\<^verbatim>\<open>new RegExp(`id=["']${id}["']`, 'g')\<close>: the characters of an id stand for themselves\<close>
  "re_id_of id' = seqs [lit ''id='', re_quote, lit id', re_quote]"

definition re_tag :: re where
  \<comment> \<open>\<^verbatim>\<open>/<([a-zA-Z][-a-zA-Z]*)(?:\s|$)/\<close>\<close>
  "re_tag = seqs [Chr CHR ''<'',
                  Grp 1 (Seq (Cls False (lower @ upper)) (Star True (Cls False (''-'' @ lower @ upper)))),
                  Alt re_s Eoi]"

definition truthy :: "string option \<Rightarrow> bool" where
  "truthy v = (case v of None \<Rightarrow> False | Some s \<Rightarrow> s \<noteq> [])"

text \<open>The text of the line of the first \<^verbatim>\<open>id=\<close> attribute naming the id, up to the
  attribute, matched against the tag pattern (\<^verbatim>\<open>closestId\<close> in the source).\<close>

definition closestId :: "TextDocument \<Rightarrow> RegExpExecArray \<Rightarrow> RegExpExecArray option" where
  "closestId document ids =
     (let position = positionAt document (index ids)
      in match (getText document (mkRange (line position) 0 (line position) (character position)))
               re_tag)"

fun pushAll ::
  "(string \<Rightarrow> CompletionItem) \<Rightarrow> string list \<Rightarrow> CompletionItem list \<Rightarrow> CompletionItem list" where
  "pushAll f [] completions = completions"
| "pushAll f (v # vs) completions = pushAll f vs (completions @ [f v])"

definition getMethodAndPropertyCompletions ::
  "Env \<Rightarrow> Completions \<Rightarrow> string \<Rightarrow> error + CompletionItem list" where
  "getMethodAndPropertyCompletions env c linePrefix =
     (case match linePrefix re_id_dot of
        None \<Rightarrow> Inl TypeError
      | Some found \<Rightarrow>
     (case elem found 1 of
        None \<Rightarrow> Inl TypeError
      | Some id' \<Rightarrow>
     (case getTargetPath_xml env of
        None \<Rightarrow> Inr []
      | Some relatedFile \<Rightarrow>
          if relatedFile = [] then Inr []
          else
     (case openTextDocument env relatedFile of
        None \<Rightarrow> Inl OpenFailed
      | Some document \<Rightarrow>
          (let tagName =
                 (case fst (exec (regex_g (re_id_of id')) document) of
                    None \<Rightarrow> None
                  | Some ids \<Rightarrow>
                      (case closestId document ids of
                         None \<Rightarrow> None
                       | Some closest \<Rightarrow> elem closest 1))
           in case tagName of
                None \<Rightarrow> Inr []
              | Some tag \<Rightarrow>
                  if tag = [] then Inr []
                  else (case lookup (alloy_tags c) tag of
                          Undefined \<Rightarrow> Inr []
                        | tagEntry \<Rightarrow>
                            (case lookup (titanium_types c)
                                    (case tagEntry of Own apiName \<Rightarrow> apiName
                                     | _ \<Rightarrow> ''undefined'') of
                               Undefined \<Rightarrow> Inr []
                             | Inherited \<Rightarrow> Inl TypeError
                             | Own tagObj \<Rightarrow>
                                 Inr (pushAll
                                       (\<lambda>v. (item v Property)
                                          \<lparr>insertText := Some (SnippetString (v @ '' = $1$0''))\<rparr>)
                                       (type_properties tagObj)
                                       (pushAll
                                         (\<lambda>v. (item v Method)
                                            \<lparr>insertText := Some (SnippetString (v @ ''($1)$0''))\<rparr>)
                                         (type_functions tagObj) [])))))))))"

subsection \<open>getEventNameCompletions\<close>

definition getEventNameCompletions ::
  "Env \<Rightarrow> Completions \<Rightarrow> string \<Rightarrow> error + CompletionItem list" where
  "getEventNameCompletions env c linePrefix =
     (case fst (exec (regex re_event) linePrefix) of
        None \<Rightarrow> Inr []
      | Some matches \<Rightarrow>
     (case elem matches 1 of
        None \<Rightarrow> Inl TypeError
      | Some id' \<Rightarrow>
     (case getTargetPath_xml env of
        None \<Rightarrow> Inr []
      | Some relatedFile \<Rightarrow>
          if relatedFile = [] then Inr []
          else
     (case openTextDocument env relatedFile of
        None \<Rightarrow> Inl OpenFailed
      | Some document \<Rightarrow>
          (let tagName =
                 (case fst (exec (regex_g (re_id_of id')) document) of
                    None \<Rightarrow> None
                  | Some ids \<Rightarrow>
                      (case closestId document ids of
                         None \<Rightarrow> None
                       | Some closest \<Rightarrow> elem matches 1))
           in case tagName of
                None \<Rightarrow> Inr []
              | Some tag \<Rightarrow>
                  if tag = [] then Inr []
                  else (case lookup (alloy_tags c) tag of
                          Undefined \<Rightarrow> Inr []
                        | tagEntry \<Rightarrow>
                            (let apiName = (case tagEntry of Own a \<Rightarrow> Some a | _ \<Rightarrow> None)
                             in case lookup (titanium_types c)
                                       (case apiName of Some a \<Rightarrow> a | None \<Rightarrow> ''undefined'') of
                                  Own tagObj \<Rightarrow>
                                    Inr (pushAll (\<lambda>v. (item v Event)\<lparr>detail := apiName\<rparr>)
                                           (type_events tagObj) [])
                                | _ \<Rightarrow> Inl TypeError)))))))"

subsection \<open>getTitaniumApiCompletions and getAlloyApiCompletions\<close>

definition re_ti_api :: re where
  \<comment> \<open>\<^verbatim>\<open>/(Ti\.(?:(?:[A-Z]\w*|iOS|iPad)\.?)*)([a-z]\w*)*$/\<close>\<close>
  "re_ti_api =
     seqs [Grp 1 (Seq (lit ''Ti.'')
                      (Star True (Seq (Alt (Seq (Cls False upper) (Star True re_w))
                                           (Alt (lit ''iOS'') (lit ''iPad'')))
                                      (opt (Chr CHR ''.''))))),
           Star True (Grp 2 (Seq (Cls False lower) (Star True re_w))), Eoi]"

definition re_alloy_api :: re where
  \<comment> \<open>\<^verbatim>\<open>/(Alloy\.(?:(?:[A-Z]\w*)\.?)*)([a-z]\w*)*$/\<close>\<close>
  "re_alloy_api =
     seqs [Grp 1 (Seq (lit ''Alloy.'')
                      (Star True (Seq (Seq (Cls False upper) (Star True re_w))
                                      (opt (Chr CHR ''.''))))),
           Star True (Grp 2 (Seq (Cls False lower) (Star True re_w))), Eoi]"

text \<open>The three loops of the two functions: over the keys of the catalog's types, and over
  the functions and the properties of the resolved type.\<close>

fun classLoop :: "string \<Rightarrow> string list \<Rightarrow> CompletionItem list \<Rightarrow> CompletionItem list" where
  "classLoop apiName [] completions = completions"
| "classLoop apiName (key # keys) completions =
     classLoop apiName keys
       (if indexOf key apiName = 0 \<and> indexOf key ''_'' = - 1
        then completions @ [(item key Class)
               \<lparr>insertText := Some (PlainText (last (split_on CHR ''.'' key)))\<rparr>]
        else completions)"

definition attribute_admits :: "Env \<Rightarrow> string option \<Rightarrow> string \<Rightarrow> bool" where
  \<comment> \<open>\<^verbatim>\<open>!attribute || utils.matches(name, attribute)\<close>\<close>
  "attribute_admits env attribute name =
     (case attribute of None \<Rightarrow> True | Some a \<Rightarrow> a = [] \<or> utils_matches env name a)"

fun memberLoop ::
  "Env \<Rightarrow> string option \<Rightarrow> CompletionItemKind \<Rightarrow> string list \<Rightarrow> CompletionItem list
     \<Rightarrow> CompletionItem list" where
  "memberLoop env attribute k [] completions = completions"
| "memberLoop env attribute k (name # names) completions =
     memberLoop env attribute k names
       (if attribute_admits env attribute name \<and> indexOf name ''deprecated'' = - 1
        then completions @ [item name k] else completions)"

definition getTitaniumApiCompletions ::
  "Env \<Rightarrow> Completions \<Rightarrow> string \<Rightarrow> error + CompletionItem list" where
  "getTitaniumApiCompletions env c linePrefix =
     (case match linePrefix re_ti_api of
        None \<Rightarrow> Inr []
      | Some matches \<Rightarrow>
          if length (elems matches) \<noteq> 3 then Inr []
          else
     (case elem matches 1 of
        None \<Rightarrow> Inl TypeError
      | Some g1 \<Rightarrow>
          (let apiName0 = (if lastIndexOf g1 ''.'' = int (length g1) - 1
                           then substr g1 0 (length g1 - 1) else g1);
               attribute0 = elem matches 2;
               resolved =
                 (case attribute0 of
                    None \<Rightarrow> (apiName0, None)
                  | Some a \<Rightarrow>
                      if a \<noteq> [] \<and> (indexOf ''iOS'' a = 0 \<or> indexOf ''iPad'' a = 0)
                      then (apiName0 @ ''.'' @ a, None) else (apiName0, Some a));
               apiName = fst resolved;
               attribute = snd resolved
           in if apiName = [] then Inr []
              else
                (let completions =
                       (if truthy attribute then []
                        else classLoop apiName (map fst (titanium_types c)) [])
                 in case lookup (titanium_types c) apiName of
                      Undefined \<Rightarrow> Inr completions
                    | Inherited \<Rightarrow> Inl TypeError
                    | Own apiObj \<Rightarrow>
                        Inr (memberLoop env attribute Property (type_properties apiObj)
                              (memberLoop env attribute Method (type_functions apiObj)
                                 completions))))))"

definition getAlloyApiCompletions ::
  "Env \<Rightarrow> Completions \<Rightarrow> string \<Rightarrow> error + CompletionItem list" where
  "getAlloyApiCompletions env c linePrefix =
     (case match linePrefix re_alloy_api of
        None \<Rightarrow> Inr []
      | Some matches \<Rightarrow>
          if length (elems matches) \<noteq> 3 then Inr []
          else
     (case elem matches 1 of
        None \<Rightarrow> Inl TypeError
      | Some g1 \<Rightarrow>
          (let apiName = (if lastIndexOf g1 ''.'' = int (length g1) - 1
                          then substr g1 0 (length g1 - 1) else g1);
               attribute = elem matches 2
           in if apiName = [] then Inr []
              else
                (let completions =
                       (if truthy attribute then []
                        else classLoop apiName (map fst (alloy_types c)) [])
                 in case lookup (alloy_types c) apiName of
                      Undefined \<Rightarrow> Inr completions
                    | Inherited \<Rightarrow> Inl TypeError
                    | Own apiObj \<Rightarrow>
                        Inr (memberLoop env attribute Property (type_properties apiObj)
                              (memberLoop env attribute Method (type_functions apiObj)
                                 completions))))))"

subsection \<open>getFileCompletions and getWidgetCompletions\<close>

fun replace_first :: "string \<Rightarrow> string \<Rightarrow> string \<Rightarrow> string" where
  "replace_first [] pat rep = (if pat = [] then rep else [])"
| "replace_first (c # cs) pat rep =
     (if prefix pat (c # cs) then rep @ drop (length pat) (c # cs)
      else c # replace_first cs pat rep)"

text \<open>\<open>filterJSFiles env directory\<close> is \<open>None\<close> when the directory of the Alloy root does not
  exist, and otherwise the JS files below it, each as its path relative to the directory.\<close>

definition getFileCompletions ::
  "Env \<Rightarrow> string \<Rightarrow> string option \<Rightarrow> Range option \<Rightarrow> CompletionItem list" where
  "getFileCompletions env directory moduleName range' =
     (case filterJSFiles env directory of
        None \<Rightarrow> []
      | Some files \<Rightarrow>
          pushAll (\<lambda>file. (item (''/'' @ replace_first file ''.js'' []) Reference)
                             \<lparr>item_range := range'\<rparr>) files [])"

definition getWidgetCompletions :: "Env \<Rightarrow> error + CompletionItem list" where
  "getWidgetCompletions env =
     (case configDependencies env of
        Inl e \<Rightarrow> Inl e
      | Inr dependencies \<Rightarrow> Inr (pushAll (\<lambda>widgetName. item widgetName Reference) dependencies []))"

subsection \<open>provideCompletionItems\<close>

definition re_word_path :: re where
  \<comment> \<open>\<^verbatim>\<open>/([\w/.$]+)/\<close>\<close>
  "re_word_path = Grp 1 (plus (Cls False (word_chars @ ''/.$'')))"

definition linePrefixOf :: "TextDocument \<Rightarrow> Position \<Rightarrow> string" where
  "linePrefixOf document position =
     getText document (mkRange (line position) 0 (line position) (character position))"

text \<open>The branches of the cascade, and the branch the cascade takes at a cursor: the
  \<^verbatim>\<open>if\<close> / \<^verbatim>\<open>else if\<close> chain of the source. Each pattern is a literal without the
  \<^verbatim>\<open>g\<close> flag, evaluated anew on every call.\<close>

datatype Branch =
    XmlId | Member | Titanium | EventName | Require | Controller | Model | Widget | Alloy
  | Fallthrough

definition cursorContext :: "TextDocument \<Rightarrow> Position \<Rightarrow> Branch" where
  "cursorContext document position =
     (let linePrefix = linePrefixOf document position
      in if tests re_xml_id linePrefix then XmlId
         else if tests re_member linePrefix then Member
         else if tests re_titanium linePrefix then Titanium
         else if tests re_event linePrefix then EventName
         else if tests re_require linePrefix then Require
         else if tests re_controller linePrefix then Controller
         else if tests re_model linePrefix then Model
         else if tests re_widget linePrefix then Widget
         else if tests re_alloy linePrefix then Alloy
         else Fallthrough)"

text \<open>The loop over the Alloy auto-complete rules: \<open>None\<close> when no rule's pattern matches.\<close>

fun rulesLoop ::
  "Env \<Rightarrow> TextDocument \<Rightarrow> Position \<Rightarrow> string \<Rightarrow> AlloyAutoCompleteRule list
     \<Rightarrow> (error + CompletionItem list) option" where
  "rulesLoop env document position linePrefix [] = None"
| "rulesLoop env document position linePrefix (rule # rules) =
     (if tests (rule_regExp rule) linePrefix
      then Some (if requireRange rule
                 then getCompletions rule
                        (getWordRangeAtPosition env document position (rangeRegex rule))
                 else getCompletions rule None)
      else rulesLoop env document position linePrefix rules)"

text \<open>The body of the \<^verbatim>\<open>require\<close> branch, and what each branch returns.\<close>

definition requireCompletions ::
  "Env \<Rightarrow> TextDocument \<Rightarrow> Position \<Rightarrow> string \<Rightarrow> error + CompletionItem list" where
  "requireCompletions env document position linePrefix =
     (case match linePrefix re_require of
        None \<Rightarrow> Inl TypeError
      | Some matches \<Rightarrow>
          Inr (getFileCompletions env ''lib'' (elem matches 1)
                 (getWordRangeAtPosition env document position re_word_path)))"

definition delegate ::
  "Env \<Rightarrow> Completions \<Rightarrow> TextDocument \<Rightarrow> Position \<Rightarrow> Branch \<Rightarrow> error + CompletionItem list" where
  "delegate env c document position b =
     (let linePrefix = linePrefixOf document position
      in case b of
           XmlId \<Rightarrow> getIdCompletions env
         | Member \<Rightarrow> getMethodAndPropertyCompletions env c linePrefix
         | Titanium \<Rightarrow> getTitaniumApiCompletions env c linePrefix
         | EventName \<Rightarrow> getEventNameCompletions env c linePrefix
         | Require \<Rightarrow> requireCompletions env document position linePrefix
         | Controller \<Rightarrow> Inr (getFileCompletions env ''controllers'' None None)
         | Model \<Rightarrow> Inr (getFileCompletions env ''models'' None None)
         | Widget \<Rightarrow> getWidgetCompletions env
         | Alloy \<Rightarrow> getAlloyApiCompletions env c linePrefix
         | Fallthrough \<Rightarrow>
             (case rulesLoop env document position linePrefix (alloyAutoCompleteRules env) of
                Some r \<Rightarrow> r
              | None \<Rightarrow> Inr [item ''Ti'' Class]))"

text \<open>The provider keeps the catalog once it is loaded (\<^verbatim>\<open>this.completions\<close>); a call
  returns its result and the catalog the provider holds afterwards. When the catalog cannot
  be loaded the call is rejected before the cursor is looked at.\<close>

definition provideCompletionItems ::
  "Env \<Rightarrow> Completions option \<Rightarrow> TextDocument \<Rightarrow> Position
     \<Rightarrow> (error + CompletionItem list) \<times> Completions option" where
  "provideCompletionItems env this document position =
     (case this of
        Some c \<Rightarrow> (delegate env c document position (cursorContext document position), Some c)
      | None \<Rightarrow>
          (case loadCompletions env of
             Inl e \<Rightarrow> (Inl e, None)
           | Inr c \<Rightarrow>
               (delegate env c document position (cursorContext document position), Some c)))"

section \<open>The definition provider helper\<close>

subsection \<open>The string under the cursor\<close>

text \<open>The loop of \<^verbatim>\<open>provideHover\<close> and \<^verbatim>\<open>provideDefinition\<close> over the matches of
  \<^verbatim>\<open>/['"]/g\<close> in the cursor's line: \<open>i\<close> is the pattern's \<^verbatim>\<open>lastIndex\<close>. The second
  branch is the \<^verbatim>\<open>break\<close>.\<close>

lemma nonempty_re_quote: "nonempty re_quote"
  by (simp add: re_quote_def)

function quoteLoop :: "string \<Rightarrow> nat \<Rightarrow> nat \<Rightarrow> nat \<Rightarrow> nat \<Rightarrow> nat \<times> nat" where
  "quoteLoop ln col i startIndex endIndex =
     (case exec_from re_quote ln i of
        None \<Rightarrow> (startIndex, endIndex)
      | Some (matches, i') \<Rightarrow>
          if index matches < col then quoteLoop ln col i' (index matches) endIndex
          else if col < index matches then (startIndex, index matches)
          else quoteLoop ln col i' startIndex endIndex)"
  by pat_completeness auto
termination
proof (relation "measure (\<lambda>(ln, col, i, startIndex, endIndex). Suc (length ln) - i)")
qed (use exec_from_progress[OF nonempty_re_quote] in \<open>auto, fastforce+\<close>)

definition quoteBounds :: "string \<Rightarrow> nat \<Rightarrow> nat \<times> nat" where
  "quoteBounds ln col = quoteLoop ln col 0 0 col"

text \<open>\<^verbatim>\<open>(startIndex && endIndex) ? line.substring(startIndex + 1, endIndex) : null\<close> in
  \<^verbatim>\<open>provideHover\<close>, with \<^verbatim>\<open>''\<close> for \<^verbatim>\<open>null\<close> in \<^verbatim>\<open>provideDefinition\<close>.\<close>

definition hoverValue :: "string \<Rightarrow> nat \<Rightarrow> string option" where
  "hoverValue ln col =
     (case quoteBounds ln col of
        (startIndex, endIndex) \<Rightarrow>
          if startIndex \<noteq> 0 \<and> endIndex \<noteq> 0 then Some (substring ln (startIndex + 1) endIndex)
          else None)"

definition definitionValue :: "string \<Rightarrow> nat \<Rightarrow> string" where
  "definitionValue ln col =
     (case quoteBounds ln col of
        (startIndex, endIndex) \<Rightarrow>
          if startIndex \<noteq> 0 \<and> endIndex \<noteq> 0 then substring ln (startIndex + 1) endIndex
          else [])"

definition lineAt :: "TextDocument \<Rightarrow> Position \<Rightarrow> error + string" where
  "lineAt document position =
     (if line position < length (doc_lines document) then Inr (doc_lines document ! line position)
      else Inl HostError)"

subsection \<open>provideHover\<close>

definition re_image :: re where
  \<comment> \<open>\<^verbatim>\<open>/image\s*[=:]\s*["'][\s0-9a-zA-Z-_^./]*$/\<close>\<close>
  "re_image = seqs [lit ''image'', Star True re_s, Cls False ''=:'', Star True re_s, re_quote,
                    Star True (Cls False (space_chars @ digit @ lower @ upper @ ''-_^./'')), Eoi]"

record Hover =
  contents :: string
  hover_range :: Range

text \<open>\<open>assets value\<close> stands for the files below the assets directory whose path
  matches the name and the extension of \<open>value\<close>, as \<^verbatim>\<open>walkSync\<close> lists them.\<close>

definition provideHover ::
  "(string \<Rightarrow> string list) \<Rightarrow> TextDocument \<Rightarrow> Position \<Rightarrow> error + Hover option" where
  "provideHover assets document position =
     (case lineAt document position of
        Inl e \<Rightarrow> Inl e
      | Inr ln \<Rightarrow>
          (let linePrefix = linePrefixOf document position;
               bounds = quoteBounds ln (character position)
           in case hoverValue ln (character position) of
                None \<Rightarrow> Inr None
              | Some v \<Rightarrow>
                  if v = [] then Inr None
                  else if tests re_image linePrefix
                  then Inr (Some \<lparr>contents =
                                   (case assets v of
                                      [] \<Rightarrow> ''Image not found''
                                    | imageFile # _ \<Rightarrow>
                                        ''!['' @ imageFile @ '']('' @ imageFile @ ''|height=100)''),
                                 hover_range = mkRange (line position) (fst bounds + 1)
                                                 (line position) (snd bounds)\<rparr>)
                  else Inr None))"

subsection \<open>getReferences\<close>

record Location =
  uri :: string
  location_range :: Range

text \<open>The loop over the files. The pattern is one object for all of them: each
  \<^verbatim>\<open>exec\<close> leaves it for the next file. A file that cannot be opened is passed over, and
  so is one without text; \<^verbatim>\<open>for (const match of matches)\<close> runs once for the whole
  match and once for every group.\<close>

fun getReferences_loop ::
  "(string \<Rightarrow> string option) \<Rightarrow> (string \<Rightarrow> Range \<Rightarrow> 'a) \<Rightarrow> string list \<Rightarrow> RegExp \<Rightarrow> 'a list
     \<Rightarrow> 'a list" where
  "getReferences_loop openDoc callback [] regExp definitions = definitions"
| "getReferences_loop openDoc callback (file # files) regExp definitions =
     (case openDoc file of
        None \<Rightarrow> getReferences_loop openDoc callback files regExp definitions
      | Some document \<Rightarrow>
          if length document > 0
          then (case exec regExp document of
                  (None, regExp') \<Rightarrow> getReferences_loop openDoc callback files regExp' definitions
                | (Some matches, regExp') \<Rightarrow>
                    (let position = positionAt document (index matches)
                     in getReferences_loop openDoc callback files regExp'
                          (definitions
                           @ map (\<lambda>match. callback file
                                    (mkRange (line position) (character position) (line position) 0))
                               (elems matches))))
          else getReferences_loop openDoc callback files regExp definitions)"

datatype FilesArg = OneFile string | Files "string list"

definition getReferences ::
  "(string \<Rightarrow> string option) \<Rightarrow> FilesArg \<Rightarrow> RegExp \<Rightarrow> (string \<Rightarrow> Range \<Rightarrow> 'a) \<Rightarrow> 'a list" where
  "getReferences openDoc files regExp callback =
     getReferences_loop openDoc callback (case files of OneFile f \<Rightarrow> [f] | Files fs \<Rightarrow> fs)
       regExp []"

subsection \<open>provideDefinition\<close>

record DefinitionSuggestion =
  suggestion_regExp :: re
  definitionRegExp :: "(string \<Rightarrow> RegExp) option"
  suggestion_files :: "TextDocument \<Rightarrow> string option \<Rightarrow> string \<Rightarrow> string list"

record DefinitionLink =
  originSelectionRange :: Range
  targetRange :: Range
  targetUri :: string

datatype Definitions = Locations "Location list" | Links "DefinitionLink list"

fun suggestionLoop ::
  "(string \<Rightarrow> string option) \<Rightarrow> TextDocument \<Rightarrow> Position \<Rightarrow> string \<Rightarrow> string option \<Rightarrow> string
     \<Rightarrow> nat \<times> nat \<Rightarrow> DefinitionSuggestion list \<Rightarrow> DefinitionLink list \<Rightarrow> Definitions" where
  "suggestionLoop openDoc document position linePrefix word v bounds [] results = Links results"
| "suggestionLoop openDoc document position linePrefix word v bounds (suggestion # suggestions)
     results =
     (if tests (suggestion_regExp suggestion) linePrefix
      then (case definitionRegExp suggestion of
              Some mk \<Rightarrow>
                Locations
                  (getReferences openDoc (Files (suggestion_files suggestion document word v))
                     (mk (if truthy word then (case word of Some w \<Rightarrow> w | None \<Rightarrow> v) else v))
                     (\<lambda>file r. \<lparr>uri = file, location_range = r\<rparr>))
            | None \<Rightarrow>
                suggestionLoop openDoc document position linePrefix word v bounds suggestions
                  (results
                   @ map (\<lambda>file. \<lparr>originSelectionRange =
                                     mkRange (line position) (fst bounds) (line position) (snd bounds),
                                   targetRange = mkRange 0 0 0 0, targetUri = file\<rparr>)
                       (suggestion_files suggestion document word v)))
      else suggestionLoop openDoc document position linePrefix word v bounds suggestions results)"

text \<open>\<open>wordAt\<close> is the text of the host's word range at the cursor, when there is one.\<close>

definition provideDefinition ::
  "(string \<Rightarrow> string option) \<Rightarrow> (TextDocument \<Rightarrow> Position \<Rightarrow> string option) \<Rightarrow> TextDocument
     \<Rightarrow> Position \<Rightarrow> DefinitionSuggestion list \<Rightarrow> error + Definitions" where
  "provideDefinition openDoc wordAt document position suggestions =
     (case lineAt document position of
        Inl e \<Rightarrow> Inl e
      | Inr ln \<Rightarrow>
          Inr (suggestionLoop openDoc document position (linePrefixOf document position)
                 (wordAt document position) (definitionValue ln (character position))
                 (quoteBounds ln (character position)) suggestions []))"

section \<open>insertI18nString\<close>

text \<open>
  The files of the workspace, by path; a document the editor opens has the file's text, and
  an edit the editor applies changes it. An insert at a position puts the text at the
  position's offset.

  \<open>path_join\<close> is \<^verbatim>\<open>path.join\<close> for POSIX paths: the segments that are not empty are
  joined with \<^verbatim>\<open>/\<close> and the result is normalised. \<open>normalize\<close> drops empty and \<^verbatim>\<open>.\<close>
  segments, lets a \<^verbatim>\<open>..\<close> segment take away the segment before it (above the root of an
  absolute path there is nothing to take, and a relative path keeps the \<^verbatim>\<open>..\<close> it cannot
  resolve), and keeps a leading and a closing separator.
\<close>

type_synonym Files = "string \<Rightarrow> string option"

record I18nConfig =
  getI18nPath :: "string option"
  defaultI18nLanguage :: string

fun intercalate :: "string \<Rightarrow> string list \<Rightarrow> string" where
  "intercalate sep [] = []"
| "intercalate sep [p] = p"
| "intercalate sep (p # ps) = p @ sep @ intercalate sep ps"

fun normalizeString :: "bool \<Rightarrow> string list \<Rightarrow> string list \<Rightarrow> string list" where
  "normalizeString allowAboveRoot [] res = res"
| "normalizeString allowAboveRoot (seg # segs) res =
     normalizeString allowAboveRoot segs
       (if seg = [] \<or> seg = ''.'' then res
        else if seg = ''..''
        then (if res \<noteq> [] \<and> last res \<noteq> ''..'' then butlast res
              else if allowAboveRoot then res @ [''..''] else res)
        else res @ [seg])"

definition normalize :: "string \<Rightarrow> string" where
  "normalize p =
     (if p = [] then ''.''
      else
        (let isAbsolute = (hd p = CHR ''/'');
             trailingSeparator = (last p = CHR ''/'');
             q = intercalate ''/'' (normalizeString (\<not> isAbsolute) (split_on CHR ''/'' p) [])
         in if q = [] then (if isAbsolute then ''/'' else if trailingSeparator then ''./'' else ''.'')
            else (if isAbsolute then ''/'' else []) @ q @ (if trailingSeparator then ''/'' else [])))"

definition path_join :: "string list \<Rightarrow> string" where
  "path_join ps = normalize (intercalate ''/'' (filter (\<lambda>p. p \<noteq> []) ps))"

definition resources_skeleton :: string where
  "resources_skeleton =
     ''<?xml version='' @ [dquote] @ ''1.0'' @ [dquote] @ '' encoding='' @ [dquote] @ ''UTF-8''
     @ [dquote] @ ''?>'' @ [newline] @ ''<resources>'' @ [newline] @ ''</resources>''"

definition edit_insert :: "TextDocument \<Rightarrow> Position \<Rightarrow> string \<Rightarrow> TextDocument" where
  "edit_insert document position s =
     take (offsetAt document position) document @ s @ drop (offsetAt document position) document"

definition insertI18nString :: "I18nConfig \<Rightarrow> Files \<Rightarrow> string \<Rightarrow> Files" where
  "insertI18nString config fs s =
     (case getI18nPath config of
        None \<Rightarrow> fs
      | Some i18nPath \<Rightarrow>
          if i18nPath = [] then fs
          else
            (let i18nStringPath = path_join [i18nPath, defaultI18nLanguage config, ''strings.xml''];
                 fs1 = (if fs i18nStringPath = None then fs(i18nStringPath \<mapsto> resources_skeleton)
                        else fs)
             in case fs1 i18nStringPath of
                  None \<Rightarrow> fs1
                | Some document \<Rightarrow>
                    (let insertText = [CHR 0x09] @ ''<string name='' @ [dquote] @ s @ [dquote]
                                      @ ''></string>'' @ [newline];
                         idx = indexOf document ''</resources>''
                     in if idx \<noteq> - 1
                        then fs1(i18nStringPath \<mapsto>
                                   edit_insert document (positionAt document (nat idx)) insertText)
                        else fs1)))"

section \<open>installUpdates\<close>

text \<open>
  An update's \<^verbatim>\<open>action\<close> resolves or rejects. What it rejects with is any value:
  \<^verbatim>\<open>null\<close> or \<^verbatim>\<open>undefined\<close>, of which no property can be read, or a value whose
  \<^verbatim>\<open>metadata\<close> is there (truthy) or not. The host's \<^verbatim>\<open>showErrorMessage\<close> resolves to
  the item the user picks, if any, or rejects; the command the item runs in the terminal may
  throw. What the function does is kept as the list of its effects, in order: the progress
  reports (a message with the counter and the total, or an increment of
  \<^verbatim>\<open>100 / totalUpdates\<close>, kept as the total), the calls of the actions, the error messages
  shown and the commands run. Priorities are whole numbers;
  \<^verbatim>\<open>Array.prototype.sort\<close> is stable.
\<close>

record ErrorMetadata =
  errorCode :: string
  command :: string

datatype Thrown = Nullish | Raised (metadata: "ErrorMetadata option")

datatype Outcome = Resolved | Rejected Thrown

record UpdateInfo =
  update_label :: "string option"
  productName :: string
  latestVersion :: string
  priority :: int
  action :: "string \<Rightarrow> Outcome"

datatype ProgressEvent =
    Installing string nat nat
  | ActionCalled string string
  | Installed string nat nat
  | FailedToInstall string nat nat
  | Increment nat
  | ErrorMessage string
  | SudoCommand string

record UpdateEnv =
  appcInstaller :: string
  showErrorMessage :: "string \<Rightarrow> error + bool"
  executeCommand :: "string \<Rightarrow> error + unit"

definition label_of :: "UpdateInfo \<Rightarrow> string" where
  "label_of update =
     (case update_label update of
        None \<Rightarrow> productName update @ '': '' @ latestVersion update
      | Some l \<Rightarrow> if l = [] then productName update @ '': '' @ latestVersion update else l)"

text \<open>The rest of the \<^verbatim>\<open>catch\<close> block, after the reports: the effects, and the error
  the block itself raises, if it does.\<close>

definition on_failure ::
  "UpdateEnv \<Rightarrow> UpdateInfo \<Rightarrow> Thrown \<Rightarrow> ProgressEvent list \<times> error option" where
  "on_failure env update err =
     (case err of
        Nullish \<Rightarrow> ([], Some TypeError)
      | Raised None \<Rightarrow>
          (let message = ''Failed to update to '' @ label_of update
           in case showErrorMessage env message of
                Inl e \<Rightarrow> ([ErrorMessage message], Some e)
              | Inr picked \<Rightarrow> ([ErrorMessage message], None))
      | Raised (Some md) \<Rightarrow>
          if productName update = appcInstaller env \<and> errorCode md = ''EACCES''
          then (let message = ''Failed to update to '' @ label_of update
                                @ '' as it must be ran with sudo''
                in case showErrorMessage env message of
                     Inl e \<Rightarrow> ([ErrorMessage message], Some e)
                   | Inr runWithSudo \<Rightarrow>
                       if runWithSudo
                       then (case executeCommand env (''sudo '' @ command md) of
                               Inl e \<Rightarrow>
                                 ([ErrorMessage message, SudoCommand (''sudo '' @ command md)],
                                  Some e)
                             | Inr u \<Rightarrow>
                                 ([ErrorMessage message, SudoCommand (''sudo '' @ command md)],
                                  None))
                       else ([ErrorMessage message], None))
          else ([], None))"

text \<open>The loop: the effects so far, the counter, and the error that ended the call, if one
  did. An error raised in the \<^verbatim>\<open>catch\<close> block leaves the loop.\<close>

fun installLoop ::
  "UpdateEnv \<Rightarrow> bool \<Rightarrow> nat \<Rightarrow> UpdateInfo list \<Rightarrow> nat \<Rightarrow> ProgressEvent list
     \<Rightarrow> ProgressEvent list \<times> nat \<times> error option" where
  "installLoop env incrementProgress totalUpdates [] counter reported =
     (reported, counter, None)"
| "installLoop env incrementProgress totalUpdates (update # updates) counter reported =
     (let started = reported
            @ [Installing (label_of update) counter totalUpdates,
               ActionCalled (productName update) (latestVersion update)]
      in case action update (latestVersion update) of
           Resolved \<Rightarrow>
             installLoop env incrementProgress totalUpdates updates (counter + 1)
               (started @ Installed (label_of update) counter totalUpdates
                          # (if incrementProgress then [Increment totalUpdates] else []))
         | Rejected err \<Rightarrow>
             (let failed = started @ FailedToInstall (label_of update) counter totalUpdates
                                     # (if incrementProgress then [Increment totalUpdates] else [])
              in case on_failure env update err of
                   (shown, Some e) \<Rightarrow> (failed @ shown, counter, Some e)
                 | (shown, None) \<Rightarrow>
                     installLoop env incrementProgress totalUpdates updates (counter + 1)
                       (failed @ shown)))"

definition installUpdates ::
  "UpdateEnv \<Rightarrow> UpdateInfo list \<Rightarrow> bool \<Rightarrow> ProgressEvent list \<times> nat \<times> error option" where
  "installUpdates env updateInfo incrementProgress =
     installLoop env incrementProgress (length updateInfo) (sort_key priority updateInfo) 1 []"

section \<open>Notions the claims are stated with\<close>

subsection \<open>The controller completion provider\<close>

text \<open>The cascade as the ordered sequence of its patterns, each with its branch.\<close>

definition cascade :: "(re \<times> Branch) list" where
  "cascade =
     [(re_xml_id, XmlId), (re_member, Member), (re_titanium, Titanium), (re_event, EventName),
      (re_require, Require), (re_controller, Controller), (re_model, Model),
      (re_widget, Widget), (re_alloy, Alloy)]"

text \<open>The handler of each pattern: what the provider's method of that branch returns for
  the call at hand.\<close>

definition handlers ::
  "Env \<Rightarrow> Completions \<Rightarrow> TextDocument \<Rightarrow> Position
     \<Rightarrow> (re \<times> (error + CompletionItem list)) list" where
  "handlers env c document position =
     [(re_xml_id, getIdCompletions env),
      (re_member, getMethodAndPropertyCompletions env c (linePrefixOf document position)),
      (re_titanium, getTitaniumApiCompletions env c (linePrefixOf document position)),
      (re_event, getEventNameCompletions env c (linePrefixOf document position)),
      (re_require, requireCompletions env document position (linePrefixOf document position)),
      (re_controller, Inr (getFileCompletions env ''controllers'' None None)),
      (re_model, Inr (getFileCompletions env ''models'' None None)),
      (re_widget, getWidgetCompletions env),
      (re_alloy, getAlloyApiCompletions env c (linePrefixOf document position))]"

text \<open>The catalog a call works with: the one the provider holds, or else the one loaded.\<close>

definition catalog_of :: "Env \<Rightarrow> Completions option \<Rightarrow> error + Completions" where
  "catalog_of env this = (case this of Some c \<Rightarrow> Inr c | None \<Rightarrow> loadCompletions env)"

subsection \<open>The Titanium API completions\<close>

definition class_item :: "string \<Rightarrow> CompletionItem" where
  "class_item key =
     \<lparr>label = key, kind = Class, detail = None,
      insertText = Some (PlainText (last (split_on CHR ''.'' key))), item_range = None\<rparr>"

text \<open>
  The shape of a Titanium API path in the text before the cursor. A segment of the path is a
  capitalised word (an upper-case letter, then letters, digits and underscores) or one of the
  names \<^verbatim>\<open>iOS\<close> and \<^verbatim>\<open>iPad\<close>; an attribute fragment is a word that starts with a
  lower-case letter and not with \<^verbatim>\<open>iOS\<close> or \<^verbatim>\<open>iPad\<close>. \<open>api_path segs\<close> is the API
  name of the segments \<open>segs\<close> below \<^verbatim>\<open>Ti\<close>. A fragment that \<^verbatim>\<open>iOS\<close> or \<^verbatim>\<open>iPad\<close>
  begins with counts as the beginning of a segment (\<open>begins_namespace\<close>). \<open>path_chars\<close>
  are the characters a path is written with.
\<close>

definition capitalised :: "string \<Rightarrow> bool" where
  "capitalised w = (w \<noteq> [] \<and> hd w \<in> set upper \<and> list_all (\<lambda>x. x \<in> set word_chars) (tl w))"

definition segment :: "string \<Rightarrow> bool" where
  "segment w = (capitalised w \<or> w = ''iOS'' \<or> w = ''iPad'')"

definition fragment :: "string \<Rightarrow> bool" where
  "fragment w =
     (w \<noteq> [] \<and> hd w \<in> set lower \<and> list_all (\<lambda>x. x \<in> set word_chars) (tl w)
      \<and> \<not> prefix ''iOS'' w \<and> \<not> prefix ''iPad'' w)"

definition begins_namespace :: "string \<Rightarrow> bool" where
  "begins_namespace w = (prefix w ''iOS'' \<or> prefix w ''iPad'')"

definition api_path :: "string list \<Rightarrow> string" where
  "api_path segs = ''Ti'' @ concat (map (\<lambda>w. ''.'' @ w) segs)"

definition path_chars :: string where
  "path_chars = word_chars @ ''.''"

text \<open>\<open>ti_completions\<close> is the list the claim describes for an API name and an attribute
  fragment: the class items when no fragment is typed, then the functions and the properties
  of the type of that name that the fragment admits.\<close>

definition admitted :: "Env \<Rightarrow> string option \<Rightarrow> string \<Rightarrow> bool" where
  "admitted env attribute name =
     ((case attribute of None \<Rightarrow> True | Some a \<Rightarrow> utils_matches env name a)
      \<and> \<not> sublist ''deprecated'' name)"

definition ti_completions ::
  "Env \<Rightarrow> (string \<times> TypeEntry) list \<Rightarrow> string \<Rightarrow> string option \<Rightarrow> CompletionItem list" where
  "ti_completions env types apiName attribute =
     (if attribute = None
      then map class_item (filter (\<lambda>key. prefix apiName key \<and> CHR ''_'' \<notin> set key) (map fst types))
      else [])
     @ (case map_of types apiName of
          None \<Rightarrow> []
        | Some t \<Rightarrow>
            map (\<lambda>name. item name Method) (filter (admitted env attribute) (type_functions t))
            @ map (\<lambda>name. item name Property) (filter (admitted env attribute) (type_properties t)))"

subsection \<open>The definition provider helper\<close>

text \<open>\<open>quoteAt ln k\<close>: a single or double quote stands at index \<open>k\<close> of the line;
  \<open>quote_indices\<close> lists those indices in ascending order.\<close>

definition quoteAt :: "string \<Rightarrow> nat \<Rightarrow> bool" where
  "quoteAt ln k = (k < length ln \<and> ln ! k \<in> set [dquote, squote])"

definition quote_indices :: "string \<Rightarrow> nat list" where
  "quote_indices ln = filter (\<lambda>k. ln ! k \<in> set [dquote, squote]) [0 ..< length ln]"

subsection \<open>insertI18nString\<close>

text \<open>\<open>first_at needle s k\<close>: the first occurrence of \<open>needle\<close> in \<open>s\<close> starts at offset
  \<open>k\<close>. \<open>string_element\<close> is the element the function inserts for a name.\<close>

definition first_at :: "string \<Rightarrow> string \<Rightarrow> nat \<Rightarrow> bool" where
  "first_at needle s k =
     (k \<le> length s \<and> prefix needle (drop k s)
      \<and> list_all (\<lambda>j. \<not> prefix needle (drop j s)) [0 ..< k])"

definition string_element :: "string \<Rightarrow> string" where
  "string_element s =
     [CHR 0x09] @ ''<string name='' @ [dquote] @ s @ [dquote] @ ''></string>'' @ [newline]"

subsection \<open>installUpdates\<close>

text \<open>The effects of one update that is installed, or whose failure is handled, when it is
  the \<open>k\<close>-th of \<open>n\<close>; and what it takes for the handling of a failure to come to its end.\<close>

definition handled :: "UpdateEnv \<Rightarrow> UpdateInfo \<Rightarrow> bool" where
  "handled env update =
     (case action update (latestVersion update) of
        Resolved \<Rightarrow> True
      | Rejected err \<Rightarrow> snd (on_failure env update err) = None)"

definition effects_of :: "UpdateEnv \<Rightarrow> bool \<Rightarrow> nat \<Rightarrow> UpdateInfo \<times> nat \<Rightarrow> ProgressEvent list" where
  "effects_of env incrementProgress n uk =
     (case uk of (update, k) \<Rightarrow>
        [Installing (label_of update) k n, ActionCalled (productName update) (latestVersion update)]
        @ (case action update (latestVersion update) of
             Resolved \<Rightarrow> [Installed (label_of update) k n]
           | Rejected err \<Rightarrow> [FailedToInstall (label_of update) k n])
        @ (if incrementProgress then [Increment n] else [])
        @ (case action update (latestVersion update) of
             Resolved \<Rightarrow> []
           | Rejected err \<Rightarrow> fst (on_failure env update err)))"

section \<open>Notions of the proofs\<close>

text \<open>\<open>groups_consume r\<close>: every group of \<open>r\<close> consumes at least one character when it
  matches, so no group of a match is the empty string.\<close>

fun groups_consume :: "re \<Rightarrow> bool" where
  "groups_consume (Seq a b) = (groups_consume a \<and> groups_consume b)"
| "groups_consume (Alt a b) = (groups_consume a \<and> groups_consume b)"
| "groups_consume (Star g a) = groups_consume a"
| "groups_consume (Grp n a) = (nonempty a \<and> groups_consume a)"
| "groups_consume (Chr c) = True"
| "groups_consume (Cls neg cs) = True"
| "groups_consume Eps = True"
| "groups_consume Eoi = True"

text \<open>\<open>strip_dot\<close> takes the closing dot from a name.\<close>

definition strip_dot :: "string \<Rightarrow> string" where
  "strip_dot g = (if g \<noteq> [] \<and> last g = CHR ''.'' then butlast g else g)"

text \<open>What the function itself resolves from the text before the cursor: the groups of the
  leftmost match of its pattern, the first without a closing dot, and the second joined to
  the first when \<^verbatim>\<open>iOS\<close> or \<^verbatim>\<open>iPad\<close> begins with it.\<close>

definition ti_resolved :: "string \<Rightarrow> (string \<times> string option) option" where
  "ti_resolved linePrefix =
     (case match linePrefix re_ti_api of
        None \<Rightarrow> None
      | Some ms \<Rightarrow>
          (case elem ms 1 of
             None \<Rightarrow> None
           | Some g1 \<Rightarrow>
               (case elem ms 2 of
                  None \<Rightarrow> Some (strip_dot g1, None)
                | Some a \<Rightarrow>
                    if prefix a ''iOS'' \<or> prefix a ''iPad''
                    then Some (strip_dot g1 @ ''.'' @ a, None)
                    else Some (strip_dot g1, Some a))))"

section \<open>Example inputs\<close>

definition example_view :: string where
  "example_view = ''<Alloy>'' @ [newline] @ ''  <Window id='' @ [dquote] @ ''win'' @ [dquote] @ ''>''
     @ [newline] @ ''    <Label id='' @ [dquote] @ ''title'' @ [dquote] @ ''/>''
     @ [newline] @ ''    <Label id='' @ [dquote] @ ''win'' @ [dquote] @ ''/>''"

definition example_catalog :: Completions where
  "example_catalog =
     \<lparr>alloy_tags = [(''Window'', ''Ti.UI.Window''), (''Label'', ''Ti.UI.Label'')],
      alloy_types = [],
      titanium_types =
        [(''Ti.UI'', \<lparr>type_functions = [''createWindow'', ''createLabel''],
                      type_properties = [''backgroundColor''], type_events = []\<rparr>),
         (''Ti.UI.Window'', \<lparr>type_functions = [''open'', ''close''],
                             type_properties = [''title'', ''url-deprecated''],
                             type_events = [''click'', ''focus'']\<rparr>),
         (''Ti.UI_internal'', \<lparr>type_functions = [], type_properties = [], type_events = []\<rparr>),
         (''Ti.UI.Label'', \<lparr>type_functions = [''setText''], type_properties = [''text''],
                            type_events = [''longpress'']\<rparr>)]\<rparr>"

definition example_rule :: AlloyAutoCompleteRule where
  "example_rule =
     \<lparr>rule_regExp = seqs [lit ''L('', re_quote, Star True re_w, Eoi], requireRange = False,
      rangeRegex = re_word_path, getCompletions = (\<lambda>r. Inr [item ''greeting'' Reference])\<rparr>"

definition example_env :: Env where
  "example_env =
     \<lparr>loadCompletions = Inr example_catalog,
      getTargetPath_xml = Some ''/app/views/index.xml'',
      openTextDocument = (\<lambda>p. if p = ''/app/views/index.xml'' then Some example_view else None),
      getWordRangeAtPosition = (\<lambda>d p r. None),
      utils_matches = (\<lambda>name a. indexOf name a \<noteq> - 1),
      filterJSFiles = (\<lambda>d. None),
      configDependencies = Inr [],
      alloyAutoCompleteRules = [example_rule]\<rparr>"

definition unloadable_env :: Env where
  "unloadable_env = example_env\<lparr>loadCompletions := Inl LoadFailed\<rparr>"

definition label_view :: string where
  "label_view = ''<Alloy>'' @ [newline] @ ''  <Label id='' @ [dquote] @ ''Window'' @ [dquote] @ ''/>''"

definition hover_line :: string where
  "hover_line = ''<ImageView image='' @ [dquote] @ ''/images/logo.png'' @ [dquote] @ '' id='' @ [dquote] @ ''logo'' @ [dquote] @ ''/>''"

definition open_line :: string where
  "open_line = ''<ImageView image='' @ [dquote] @ ''/images/logo''"

definition style_docs :: "string \<Rightarrow> string option" where
  "style_docs p =
     (if p = ''/app/styles/index.tss''
      then Some ([dquote] @ ''Label'' @ [dquote] @ '': {}, '' @ [dquote] @ ''.btn'' @ [dquote] @ '': {}'')
      else if p = ''/app/styles/app.tss''
      then Some ([dquote] @ ''.btn'' @ [dquote] @ '': { color: '' @ [squote] @ ''red'' @ [squote] @ '' }'')
      else None)"

definition re_btn :: re where
  "re_btn = seqs [re_quote, lit ''.btn'', re_quote]"

definition i18n_config :: I18nConfig where
  "i18n_config = \<lparr>getI18nPath = Some ''/app/i18n'', defaultI18nLanguage = ''en''\<rparr>"

definition no_i18n_config :: I18nConfig where
  "no_i18n_config = \<lparr>getI18nPath = None, defaultI18nLanguage = ''en''\<rparr>"

definition empty_i18n_config :: I18nConfig where
  "empty_i18n_config = \<lparr>getI18nPath = Some [], defaultI18nLanguage = ''en''\<rparr>"

definition no_files :: Files where
  "no_files = (\<lambda>p. None)"

definition example_updates :: "UpdateInfo list" where
  "example_updates =
     [\<lparr>update_label = None, productName = ''Appcelerator CLI'', latestVersion = ''7.1.0'',
       priority = 10,
       action = (\<lambda>v. Rejected (Raised (Some \<lparr>errorCode = ''EACCES'',
                                                  command = ''npm i -g appcelerator''\<rparr>)))\<rparr>,
      \<lparr>update_label = Some ''Node.js 12'', productName = ''Node.js'', latestVersion = ''12.18.0'',
       priority = 1, action = (\<lambda>v. Resolved)\<rparr>,
      \<lparr>update_label = None, productName = ''Titanium SDK'', latestVersion = ''9.0.3.GA'',
       priority = 100, action = (\<lambda>v. Rejected (Raised None))\<rparr>,
      \<lparr>update_label = None, productName = ''Appcelerator CLI (npm)'', latestVersion = ''5.0.0'',
       priority = 10, action = (\<lambda>v. Resolved)\<rparr>]"

definition example_update_env :: UpdateEnv where
  "example_update_env =
     \<lparr>appcInstaller = ''Appcelerator CLI'', showErrorMessage = (\<lambda>message. Inr True),
      executeCommand = (\<lambda>c. Inr ())\<rparr>"

text \<open>Two updates, the first of which rejects without a reason (\<^verbatim>\<open>Promise.reject()\<close>), and
  the same two where it rejects with an \<^verbatim>\<open>Error\<close>.\<close>

definition sdk_update :: "Outcome \<Rightarrow> UpdateInfo" where
  "sdk_update outcome =
     \<lparr>update_label = None, productName = ''Titanium SDK'', latestVersion = ''9.0.3.GA'',
      priority = 1, action = (\<lambda>v. outcome)\<rparr>"

definition node_update :: UpdateInfo where
  "node_update =
     \<lparr>update_label = Some ''Node.js 12'', productName = ''Node.js'', latestVersion = ''12.18.0'',
      priority = 2, action = (\<lambda>v. Resolved)\<rparr>"

text \<open>A view in which an element has an empty id, and a catalog with the type of
  \<^verbatim>\<open>Ti.API\<close> and the \<^verbatim>\<open>iOS\<close> namespace.\<close>

definition empty_id_view :: string where
  "empty_id_view = ''<Alloy>'' @ [newline] @ ''  <View id='' @ [dquote, dquote] @ ''><Label id=''
     @ [dquote] @ ''real'' @ [dquote] @ ''/></View>'' @ [newline] @ ''</Alloy>''"

definition api_catalog :: Completions where
  "api_catalog =
     \<lparr>alloy_tags = [], alloy_types = [],
      titanium_types =
        [(''Ti.API'', \<lparr>type_functions = [''debug'', ''info''], type_properties = [''bubbleParent''],
                       type_events = []\<rparr>),
         (''Ti.UI'', \<lparr>type_functions = [''createView''], type_properties = [''insets''],
                      type_events = []\<rparr>),
         (''Ti.UI.iOS'', \<lparr>type_functions = [''createNavigationWindow''], type_properties = [],
                          type_events = []\<rparr>),
         (''Ti.UI.View'', \<lparr>type_functions = [''add''], type_properties = [''opacity''],
                           type_events = [''click'']\<rparr>)]\<rparr>"

chapter \<open>The claims\<close>

section \<open>The cascade of provideCompletionItems\<close>

lemma find_first:
  "xs = pre @ x # post \<Longrightarrow> P x \<Longrightarrow> list_all (\<lambda>q. \<not> P q) pre \<Longrightarrow> find P xs = Some x"
  by (induction pre arbitrary: xs) auto

text \<open>The \<^verbatim>\<open>if\<close> / \<^verbatim>\<open>else if\<close> chain returns what the handler of the first pattern of
  the table that matches returns, and goes on to the Alloy rules when none matches.\<close>

lemma provideCompletionItems_find:
  assumes "catalog_of env this = Inr c"
  shows "fst (provideCompletionItems env this d pos) =
     (case find (\<lambda>q. tests (fst q) (linePrefixOf d pos)) (handlers env c d pos) of
        Some q \<Rightarrow> snd q
      | None \<Rightarrow>
          (case rulesLoop env d pos (linePrefixOf d pos) (alloyAutoCompleteRules env) of
             Some r \<Rightarrow> r
           | None \<Rightarrow> Inr [item ''Ti'' Class]))"
proof -
  from assms have "fst (provideCompletionItems env this d pos) =
      delegate env c d pos (cursorContext d pos)"
    by (simp add: provideCompletionItems_def catalog_of_def split: option.splits sum.splits)
  then show ?thesis
    by (simp add: cursorContext_def delegate_def handlers_def Let_def)
qed

lemma provideCompletionItems_load_failure:
  "catalog_of env this = Inl e \<Longrightarrow> fst (provideCompletionItems env this d pos) = Inl e"
  by (simp add: provideCompletionItems_def catalog_of_def split: option.splits sum.splits)

text \<open>
  Claim C1, as amended. When the catalog is held by the provider or can be loaded,
  \<open>provideCompletionItems\<close> tests the text of the cursor's line before the cursor against the
  patterns of the cascade, in their order, and returns what the handler of the first pattern
  that matches returns, whatever the patterns after it are and do: \<open>getIdCompletions\<close> for the
  first pattern, \<open>getMethodAndPropertyCompletions\<close> for the second, and so on down the table
  \<open>handlers\<close>. When the catalog is not held and cannot be loaded, the call is rejected with
  the error of the load, before any pattern is tested.
\<close>

theorem provideCompletionItems_first_match:
  "(catalog_of env this = Inr c \<longrightarrow>
      (\<forall>pre r h post.
         handlers env c d pos = pre @ (r, h) # post \<and> tests r (linePrefixOf d pos) \<and>
         list_all (\<lambda>q. \<not> tests (fst q) (linePrefixOf d pos)) pre
         \<longrightarrow> fst (provideCompletionItems env this d pos) = h))
   \<and> (catalog_of env this = Inl e \<longrightarrow> fst (provideCompletionItems env this d pos) = Inl e)"
proof (intro conjI allI impI)
  fix pre r h post
  assume c: "catalog_of env this = Inr c"
  assume a: "handlers env c d pos = pre @ (r, h) # post \<and> tests r (linePrefixOf d pos) \<and>
         list_all (\<lambda>q. \<not> tests (fst q) (linePrefixOf d pos)) pre"
  have "find (\<lambda>q. tests (fst q) (linePrefixOf d pos)) (handlers env c d pos) = Some (r, h)"
    by (rule find_first[where pre = pre and post = post]) (use a in auto)
  with provideCompletionItems_find[OF c, of d pos]
  show "fst (provideCompletionItems env this d pos) = h"
    by simp
next
  assume "catalog_of env this = Inl e"
  then show "fst (provideCompletionItems env this d pos) = Inl e"
    by (rule provideCompletionItems_load_failure)
qed

text \<open>At \<^verbatim>\<open>$.win.\<close> the first pattern does not match and the second does: the call returns
  what \<open>getMethodAndPropertyCompletions\<close> returns. Without a catalog it is rejected.\<close>

theorem provideCompletionItems_first_match_witness:
  "fst (provideCompletionItems example_env None ''$.win.'' \<lparr>line = 0, character = 6\<rparr>) =
     getMethodAndPropertyCompletions example_env example_catalog ''$.win.''
   \<and> fst (provideCompletionItems unloadable_env None ''$.win.'' \<lparr>line = 0, character = 6\<rparr>) =
       Inl LoadFailed"
proof -
  let ?d = "''$.win.''" and ?p = "\<lparr>line = 0, character = 6\<rparr>"
  have lp: "linePrefixOf ?d ?p = ''$.win.''"
    by code_simp
  have h: "handlers example_env example_catalog ?d ?p =
      [(re_xml_id, getIdCompletions example_env)]
      @ (re_member, getMethodAndPropertyCompletions example_env example_catalog ''$.win.'')
      # drop 2 (handlers example_env example_catalog ?d ?p)"
    by (simp add: handlers_def lp)
  have t: "tests re_member (linePrefixOf ?d ?p)"
    by code_simp
  have "\<not> tests re_xml_id (linePrefixOf ?d ?p)"
    by code_simp
  then have n: "list_all (\<lambda>q. \<not> tests (fst q) (linePrefixOf ?d ?p))
             [(re_xml_id, getIdCompletions example_env)]"
    by simp
  have l: "catalog_of example_env None = Inr example_catalog"
    by (simp add: catalog_of_def example_env_def)
  have u: "catalog_of unloadable_env None = Inl LoadFailed"
    by (simp add: catalog_of_def unloadable_env_def)
  from provideCompletionItems_first_match[of example_env None example_catalog ?d ?p,
      THEN conjunct1, THEN mp, OF l, rule_format, OF conjI[OF h conjI[OF t n]]]
    provideCompletionItems_first_match[of unloadable_env None _ ?d ?p LoadFailed,
      THEN conjunct2, THEN mp, OF u]
  show ?thesis by (rule conjI)
qed

text \<open>The claim as it stands fails where the catalog cannot be loaded: the first pattern
  matches the text before the cursor and its handler has two ids to offer, but the call is
  rejected.\<close>

theorem provideCompletionItems_first_match_counterexample:
  "tests re_xml_id (linePrefixOf ''$.'' \<lparr>line = 0, character = 2\<rparr>)
   \<and> getIdCompletions unloadable_env =
       Inr [(item ''win'' Reference)\<lparr>detail := Some ''index.xml''\<rparr>,
            (item ''title'' Reference)\<lparr>detail := Some ''index.xml''\<rparr>]
   \<and> fst (provideCompletionItems unloadable_env None ''$.'' \<lparr>line = 0, character = 2\<rparr>) =
       Inl LoadFailed"
proof (intro conjI)
  show "tests re_xml_id (linePrefixOf ''$.'' \<lparr>line = 0, character = 2\<rparr>)"
    by code_simp
  show "getIdCompletions unloadable_env =
       Inr [(item ''win'' Reference)\<lparr>detail := Some ''index.xml''\<rparr>,
            (item ''title'' Reference)\<lparr>detail := Some ''index.xml''\<rparr>]"
    by code_simp
  show "fst (provideCompletionItems unloadable_env None ''$.'' \<lparr>line = 0, character = 2\<rparr>) =
       Inl LoadFailed"
    by (simp add: provideCompletionItems_def unloadable_env_def)
qed

lemma test_not_global:
  "\<not> global rx \<Longrightarrow> test rx s = (fst (test (rx\<lparr>lastIndex := 0\<rparr>) s), rx)"
  by (auto simp: test_def exec_def Let_def split: option.splits prod.splits)

text \<open>
  Claim C7. The branch the cascade takes is a function of the text before the cursor on the
  cursor's line: two calls where that text is the same take the same branch, whatever else
  the documents hold. No pattern of the cascade keeps state between calls: testing one
  leaves the object as it was, and the outcome does not depend on its \<^verbatim>\<open>lastIndex\<close>.
\<close>

theorem cursorContext_pure:
  "(linePrefixOf d1 p1 = linePrefixOf d2 p2 \<longrightarrow> cursorContext d1 p1 = cursorContext d2 p2)
   \<and> (\<forall>p \<in> set cascade. \<forall>n s.
         test ((regex (fst p))\<lparr>lastIndex := n\<rparr>) s =
           (tests (fst p) s, (regex (fst p))\<lparr>lastIndex := n\<rparr>))"
proof (intro conjI impI ballI allI)
  assume "linePrefixOf d1 p1 = linePrefixOf d2 p2"
  then show "cursorContext d1 p1 = cursorContext d2 p2"
    by (simp add: cursorContext_def)
next
  fix p n s
  show "test ((regex (fst p))\<lparr>lastIndex := n\<rparr>) s =
          (tests (fst p) s, (regex (fst p))\<lparr>lastIndex := n\<rparr>)"
    using test_not_global[of "(regex (fst p))\<lparr>lastIndex := n\<rparr>" s]
    by (simp add: tests_def regex_def)
qed

theorem cursorContext_pure_witness:
  "cursorContext (''$.a'' @ [newline] @ ''Ti.UI'') \<lparr>line = 0, character = 2\<rparr> =
     cursorContext ''$.require('' \<lparr>line = 0, character = 2\<rparr>
   \<and> test ((regex re_titanium)\<lparr>lastIndex := 7\<rparr>) ''Ti.UI'' =
       (tests re_titanium ''Ti.UI'', (regex re_titanium)\<lparr>lastIndex := 7\<rparr>)"
proof -
  have h: "linePrefixOf (''$.a'' @ [newline] @ ''Ti.UI'') \<lparr>line = 0, character = 2\<rparr> =
           linePrefixOf ''$.require('' \<lparr>line = 0, character = 2\<rparr>"
    by code_simp
  have mem: "(re_titanium, Titanium) \<in> set cascade"
    by (simp add: cascade_def)
  note th = cursorContext_pure[of "''$.a'' @ [newline] @ ''Ti.UI''" "\<lparr>line = 0, character = 2\<rparr>"
      "''$.require(''" "\<lparr>line = 0, character = 2\<rparr>"]
  from th[THEN conjunct1, rule_format, OF h] th[THEN conjunct2, rule_format, OF mem, of 7 "''Ti.UI''"]
  show ?thesis by (simp only: fst_conv simp_thms)
qed

lemma rulesLoop_None:
  "list_all (\<lambda>rule. \<not> tests (rule_regExp rule) lp) rules \<Longrightarrow> rulesLoop env d pos lp rules = None"
  by (induction rules) auto

text \<open>
  Claim C8, as amended. When the catalog is held or can be loaded, and the text before the
  cursor matches no pattern of the cascade and no pattern of the Alloy auto-complete rules,
  \<open>provideCompletionItems\<close> returns exactly one item, labelled \<^verbatim>\<open>Ti\<close>, of kind Class.
  When the catalog is not held and loading it fails, the call is rejected with the error of
  the load whatever the document and the cursor are: the text before the cursor is not
  looked at.
\<close>

theorem provideCompletionItems_default:
  "(catalog_of env this = Inr c
    \<and> list_all (\<lambda>p. \<not> tests (fst p) (linePrefixOf d pos)) cascade
    \<and> list_all (\<lambda>rule. \<not> tests (rule_regExp rule) (linePrefixOf d pos))
         (alloyAutoCompleteRules env)
    \<longrightarrow> fst (provideCompletionItems env this d pos) =
          Inr [\<lparr>label = ''Ti'', kind = Class, detail = None, insertText = None,
                item_range = None\<rparr>])
   \<and> (this = None \<and> loadCompletions env = Inl e \<longrightarrow>
        (\<forall>d' pos'. provideCompletionItems env this d' pos' = (Inl e, None)))"
proof (intro conjI impI allI)
  assume a: "catalog_of env this = Inr c
    \<and> list_all (\<lambda>p. \<not> tests (fst p) (linePrefixOf d pos)) cascade
    \<and> list_all (\<lambda>rule. \<not> tests (rule_regExp rule) (linePrefixOf d pos))
         (alloyAutoCompleteRules env)"
  then have "find (\<lambda>q. tests (fst q) (linePrefixOf d pos)) (handlers env c d pos) = None"
    by (simp add: cascade_def handlers_def)
  with a provideCompletionItems_find[of env this c d pos] rulesLoop_None[of "linePrefixOf d pos"
      "alloyAutoCompleteRules env" env d pos]
  show "fst (provideCompletionItems env this d pos) =
          Inr [\<lparr>label = ''Ti'', kind = Class, detail = None, insertText = None,
                item_range = None\<rparr>]"
    by (simp add: item_def)
next
  fix d' pos'
  assume "this = None \<and> loadCompletions env = Inl e"
  then show "provideCompletionItems env this d' pos' = (Inl e, None)"
    by (simp add: provideCompletionItems_def)
qed

theorem provideCompletionItems_default_witness:
  "fst (provideCompletionItems example_env None ''var x = 1;'' \<lparr>line = 0, character = 7\<rparr>) =
     Inr [\<lparr>label = ''Ti'', kind = Class, detail = None, insertText = None, item_range = None\<rparr>]
   \<and> provideCompletionItems unloadable_env None ''$.win.'' \<lparr>line = 0, character = 6\<rparr> =
       (Inl LoadFailed, None)"
proof -
  let ?d = "''var x = 1;''" and ?p = "\<lparr>line = 0, character = 7\<rparr>"
  have l: "catalog_of example_env None = Inr example_catalog"
    by (simp add: catalog_of_def example_env_def)
  have c: "list_all (\<lambda>p. \<not> tests (fst p) (linePrefixOf ?d ?p)) cascade"
    by code_simp
  have r: "list_all (\<lambda>rule. \<not> tests (rule_regExp rule) (linePrefixOf ?d ?p))
             (alloyAutoCompleteRules example_env)"
    by code_simp
  have u: "None = (None :: Completions option) \<and> loadCompletions unloadable_env = Inl LoadFailed"
    by (simp add: unloadable_env_def)
  from provideCompletionItems_default[of example_env None example_catalog ?d ?p,
      THEN conjunct1, THEN mp, OF conjI[OF l conjI[OF c r]]]
    provideCompletionItems_default[of unloadable_env None _ _ _ LoadFailed,
      THEN conjunct2, THEN mp, OF u, rule_format, of "''$.win.''" "\<lparr>line = 0, character = 6\<rparr>"]
  show ?thesis by (rule conjI)
qed


text \<open>The claim as it stands fails where the catalog cannot be loaded: no pattern and no
  rule matches, and the call is rejected.\<close>

theorem provideCompletionItems_default_counterexample:
  "list_all (\<lambda>p. \<not> tests (fst p) (linePrefixOf ''var x = 1;'' \<lparr>line = 0, character = 7\<rparr>)) cascade
   \<and> list_all (\<lambda>rule. \<not> tests (rule_regExp rule) (linePrefixOf ''var x = 1;'' \<lparr>line = 0, character = 7\<rparr>))
        (alloyAutoCompleteRules unloadable_env)
   \<and> fst (provideCompletionItems unloadable_env None ''var x = 1;'' \<lparr>line = 0, character = 7\<rparr>) =
       Inl LoadFailed"
proof (intro conjI)
  show "list_all (\<lambda>p. \<not> tests (fst p) (linePrefixOf ''var x = 1;'' \<lparr>line = 0, character = 7\<rparr>)) cascade"
    by code_simp
  show "list_all (\<lambda>rule. \<not> tests (rule_regExp rule) (linePrefixOf ''var x = 1;'' \<lparr>line = 0, character = 7\<rparr>))
        (alloyAutoCompleteRules unloadable_env)"
    by code_simp
  show "fst (provideCompletionItems unloadable_env None ''var x = 1;'' \<lparr>line = 0, character = 7\<rparr>) =
       Inl LoadFailed"
    by (simp add: provideCompletionItems_def unloadable_env_def)
qed

section \<open>The Titanium API completions\<close>

subsection \<open>What indexOf decides\<close>

lemma indexOf_from_range: "indexOf_from s needle i = - 1 \<or> int i \<le> indexOf_from s needle i"
  by (induction s arbitrary: i) (auto, force)

lemma indexOf_0_iff_prefix: "indexOf s needle = 0 \<longleftrightarrow> prefix needle s"
proof (cases s)
  case Nil
  then show ?thesis by (simp add: indexOf_def)
next
  case (Cons c cs)
  from indexOf_from_range[of cs needle 1] have "indexOf_from cs needle (Suc 0) \<noteq> 0" by auto
  with Cons show ?thesis by (simp add: indexOf_def)
qed

lemma indexOf_from_absent_iff_sublist: "indexOf_from s needle i = - 1 \<longleftrightarrow> \<not> sublist needle s"
  by (induction s arbitrary: i) (auto simp: sublist_Cons_right)

lemma indexOf_absent_iff_sublist: "indexOf s needle = - 1 \<longleftrightarrow> \<not> sublist needle s"
  by (simp add: indexOf_def indexOf_from_absent_iff_sublist)

lemma sublist_single: "sublist [c] s \<longleftrightarrow> c \<in> set s"
  by (induction s) (auto simp: sublist_Cons_right)

subsection \<open>Groups that take part in every match\<close>

lemma map_of_clear: "n \<notin> set (groups a) \<Longrightarrow> map_of (clear a k) n = map_of k n"
  by (induction k) (auto simp: clear_def)

lemma m_keeps:
  "st' \<in> set (m r st) \<Longrightarrow> n \<notin> set (groups r) \<Longrightarrow> map_of (snd st') n = map_of (snd st) n"
proof (induction r st arbitrary: st' rule: m.induct)
  case (5 a b st)
  from "5.prems" obtain mid where mid: "mid \<in> set (m a st)" "st' \<in> set (m b mid)"
    by auto
  from "5.IH"(1)[OF mid(1)] "5.IH"(2)[OF mid] "5.prems"(2) show ?case by simp
next
  case (8 greedy a st)
  from m_Star_cases[OF "8.prems"(1)] consider "st' = st"
    | mid where "mid \<in> set (m a (fst st, clear a (snd st)))"
        "length (fst mid) < length (fst st)" "st' \<in> set (m (Star greedy a) mid)"
    by blast
  then show ?case
  proof cases
    case 1
    then show ?thesis by simp
  next
    case 2
    from "8.prems"(2) have n: "n \<notin> set (groups a)" by simp
    from "8.IH"(1)[OF 2(1) n] "8.IH"(2)[OF 2(1) 2(2) 2(3) "8.prems"(2)] map_of_clear[OF n]
    show ?thesis by simp
  qed
qed (auto split: list.splits if_splits)

lemma m_Grp_then_sets:
  assumes "st' \<in> set (m (Seq (Grp n a) r) st)" "n \<notin> set (groups r)"
  shows "map_of (snd st') n \<noteq> None"
proof -
  from assms(1) obtain mid where mid: "mid \<in> set (m (Grp n a) st)" "st' \<in> set (m r mid)"
    by auto
  from mid(1) have "map_of (snd mid) n \<noteq> None" by auto
  with m_keeps[OF mid(2) assms(2)] show ?thesis by simp
qed

lemma match_Some:
  assumes "match s r = Some ms"
  obtains st k where "st \<in> set (m r (drop k s, []))"
    "elems ms = Some (take (end_index ms - index ms) (drop (index ms) s))
                # map (map_of (snd st)) [1 ..< Suc (length (groups r))]"
proof -
  from assms obtain j st where s: "search r s 0 = Some (j, st)"
    and e: "elems ms = Some (take (end_index ms - index ms) (drop (index ms) s))
                # map (map_of (snd st)) [1 ..< Suc (length (groups r))]"
    by (auto simp: match_def exec_def regex_def Let_def split: option.splits)
  from search_Some[OF s] e that show ?thesis by blast
qed

lemma m_caps_nonempty:
  "st' \<in> set (m r st) \<Longrightarrow> groups_consume r \<Longrightarrow> [] \<notin> snd ` set (snd st)
     \<Longrightarrow> [] \<notin> snd ` set (snd st')"
proof (induction r st arbitrary: st' rule: m.induct)
  case (5 a b st)
  from "5.prems" obtain mid where mid: "mid \<in> set (m a st)" "st' \<in> set (m b mid)"
    by auto
  from "5.prems" have "groups_consume a" "groups_consume b" by simp_all
  with "5.IH"(1)[OF mid(1)] "5.IH"(2)[OF mid] "5.prems"(3) show ?case by simp
next
  case (7 n a st)
  from "7.prems"(1) obtain mid where mid: "mid \<in> set (m a st)"
    and st': "st' = (fst mid, (n, take (length (fst st) - length (fst mid)) (fst st)) # snd mid)"
    by auto
  from "7.prems"(2) have a: "nonempty a" "groups_consume a" by simp_all
  from m_nonempty_less[OF a(1) mid] have "take (length (fst st) - length (fst mid)) (fst st) \<noteq> []"
    by auto
  with "7.IH"[OF mid a(2) "7.prems"(3)] st' show ?case by auto
next
  case (8 greedy a st)
  from m_Star_cases[OF "8.prems"(1)] consider "st' = st"
    | mid where "mid \<in> set (m a (fst st, clear a (snd st)))"
        "length (fst mid) < length (fst st)" "st' \<in> set (m (Star greedy a) mid)"
    by blast
  then show ?case
  proof cases
    case 1
    with "8.prems"(3) show ?thesis by simp
  next
    case 2
    from "8.prems"(2) have a: "groups_consume a" by simp
    from "8.prems"(3) have "[] \<notin> snd ` set (snd (fst st, clear a (snd st)))"
      by (auto simp: clear_def)
    from "8.IH"(1)[OF 2(1) a this] "8.IH"(2)[OF 2(1) 2(2) 2(3) "8.prems"(2)]
    show ?thesis by simp
  qed
next
  case (6 a b st)
  from "6.prems"(1) have "st' \<in> set (m a st) \<or> st' \<in> set (m b st)" by simp
  moreover from "6.prems"(2) have "groups_consume a" "groups_consume b" by simp_all
  ultimately show ?case using "6.IH" "6.prems"(3) by blast
qed (auto split: list.splits if_splits)

lemma m_Seq_cases:
  "st' \<in> set (m (Seq a b) st) \<Longrightarrow> \<exists>mid. mid \<in> set (m a st) \<and> st' \<in> set (m b mid)"
  by auto

lemma m_Grp_hd:
  assumes "mid \<in> set (m (Grp n (Seq (Seq (Chr c) r1) r2)) st)"
  shows "\<exists>v. map_of (snd mid) n = Some (c # v)"
proof -
  from assms obtain mid' where mid': "mid' \<in> set (m (Seq (Seq (Chr c) r1) r2) st)"
    and mid: "mid = (fst mid', (n, take (length (fst st) - length (fst mid')) (fst st)) # snd mid')"
    by auto
  have "nonempty (Seq (Seq (Chr c) r1) r2)" by simp
  from m_nonempty_less[OF this mid'] have l: "length (fst mid') < length (fst st)" .
  from mid' obtain xs where xs: "fst st = c # xs"
    by (cases "fst st") (auto split: if_splits)
  from l xs have "take (length (fst st) - length (fst mid')) (fst st)
      = c # take (length xs - length (fst mid')) xs"
    by (simp add: take_Cons' Suc_diff_le)
  with mid show ?thesis by simp
qed

lemma match_ti_api:
  assumes "match s re_ti_api = Some ms"
  shows "length (elems ms) = 3 \<and> (\<exists>v. elem ms 1 = Some (CHR ''T'' # v)) \<and> elem ms 2 \<noteq> Some []"
proof -
  from assms obtain st k where st: "st \<in> set (m re_ti_api (drop k s, []))"
    and e: "elems ms = Some (take (end_index ms - index ms) (drop (index ms) s))
                # map (map_of (snd st)) [1 ..< Suc (length (groups re_ti_api))]"
    by (rule match_Some)
  have g: "length (groups re_ti_api) = 2"
    by (simp add: re_ti_api_def re_w_def opt_def)
  obtain r1 r2 r where shape: "re_ti_api = Seq (Grp 1 (Seq (Seq (Chr CHR ''T'') r1) r2)) r"
    and r: "1 \<notin> set (groups r)"
    by (simp add: re_ti_api_def re_w_def)
  from m_Seq_cases[OF st[unfolded shape]]
  obtain mid where mid: "mid \<in> set (m (Grp 1 (Seq (Seq (Chr CHR ''T'') r1) r2)) (drop k s, []))"
    "st \<in> set (m r mid)"
    by blast
  from m_Grp_hd[OF mid(1)] m_keeps[OF mid(2) r]
  have 1: "\<exists>v. map_of (snd st) 1 = Some (CHR ''T'' # v)" by simp
  have "groups_consume re_ti_api"
    by (simp add: re_ti_api_def re_w_def opt_def)
  from m_caps_nonempty[OF st this] have "[] \<notin> snd ` set (snd st)" by simp
  then have 2: "map_of (snd st) 2 \<noteq> Some []"
    by (metis image_eqI map_of_SomeD snd_conv)
  from e g 1 2 show ?thesis by (simp add: elem_def upt_rec numeral_2_eq_2)
qed

subsection \<open>The loops as filters\<close>

lemma classLoop_filter:
  "classLoop apiName keys completions =
     completions @ map class_item
       (filter (\<lambda>key. prefix apiName key \<and> CHR ''_'' \<notin> set key) keys)"
  by (induction keys arbitrary: completions)
    (auto simp: indexOf_0_iff_prefix indexOf_absent_iff_sublist sublist_single class_item_def
      item_def)

lemma memberLoop_filter:
  "memberLoop env attribute k names completions =
     completions @ map (\<lambda>name. item name k)
       (filter (\<lambda>name. attribute_admits env attribute name \<and> \<not> sublist ''deprecated'' name) names)"
  by (induction names arbitrary: completions) (auto simp: indexOf_absent_iff_sublist)

lemma lastIndexOf_from_last:
  "found < int i \<Longrightarrow>
     (lastIndexOf_from s [c] i found = int (i + length s) - 1) =
     (if s = [] then found = int i - 1 else last s = c)"
proof (induction s arbitrary: i found)
  case Nil
  then show ?case by simp
next
  case (Cons x xs)
  have "(if x = c then int i else found) < int (Suc i)"
    using Cons.prems by simp
  from Cons.IH[OF this] Cons.prems show ?case by auto
qed

lemma strip_dot_code:
  "(if lastIndexOf g ''.'' = int (length g) - 1 then substr g 0 (length g - 1) else g) = strip_dot g"
  using lastIndexOf_from_last[of "- 1" 0 g "CHR ''.''"]
  by (auto simp: lastIndexOf_def strip_dot_def substr_def butlast_conv_take)

subsection \<open>A literal\<close>

lemma m_lit:
  "m (lit w) st = (if prefix w (fst st) then [(drop (length w) (fst st), snd st)] else [])"
proof (induction w arbitrary: st rule: lit.induct)
  case 1
  then show ?case by simp
next
  case (2 c)
  then show ?case by (cases "fst st") auto
next
  case (3 c v va)
  then show ?case by (cases "fst st") auto
qed

subsection \<open>What the function returns for what it resolves\<close>

lemma lookup_T:
  "lookup obj (CHR ''T'' # v) =
     (case map_of obj (CHR ''T'' # v) of Some t \<Rightarrow> Own t | None \<Rightarrow> Undefined)"
  by (simp add: lookup_def object_prototype_def)

lemma strip_dot_T:
  "strip_dot (CHR ''T'' # v) = CHR ''T'' # (if v \<noteq> [] \<and> last v = CHR ''.'' then butlast v else v)"
  by (simp add: strip_dot_def)

lemma getTitaniumApiCompletions_resolved:
  "getTitaniumApiCompletions env c linePrefix =
     Inr (case ti_resolved linePrefix of
            None \<Rightarrow> []
          | Some (apiName, attribute) \<Rightarrow> ti_completions env (titanium_types c) apiName attribute)"
proof (cases "match linePrefix re_ti_api")
  case None
  then show ?thesis by (simp add: getTitaniumApiCompletions_def[unfolded strip_dot_code] ti_resolved_def)
next
  case (Some ms)
  from match_ti_api[OF Some] obtain v where l: "length (elems ms) = 3"
    and g1: "elem ms 1 = Some (CHR ''T'' # v)" and a0: "elem ms 2 \<noteq> Some []"
    by blast
  show ?thesis
  proof (cases "elem ms 2")
    case None
    with Some l g1 show ?thesis
      by (simp add: getTitaniumApiCompletions_def[unfolded strip_dot_code] ti_resolved_def ti_completions_def
          strip_dot_T lookup_T Let_def truthy_def classLoop_filter memberLoop_filter admitted_def[abs_def]
          attribute_admits_def split: option.splits)
  next
    case a: (Some a)
    with a0 have ne: "a \<noteq> []" by simp
    show ?thesis
    proof (cases "prefix a ''iOS'' \<or> prefix a ''iPad''")
      case True
      with Some l g1 a ne show ?thesis
        by (simp add: getTitaniumApiCompletions_def[unfolded strip_dot_code] ti_resolved_def ti_completions_def
            strip_dot_T lookup_T Let_def truthy_def classLoop_filter memberLoop_filter admitted_def[abs_def]
            attribute_admits_def indexOf_0_iff_prefix split: option.splits)
    next
      case False
      with Some l g1 a ne show ?thesis
        by (simp add: getTitaniumApiCompletions_def[unfolded strip_dot_code] ti_resolved_def ti_completions_def
            strip_dot_T lookup_T Let_def truthy_def classLoop_filter memberLoop_filter admitted_def[abs_def]
            attribute_admits_def indexOf_0_iff_prefix split: option.splits)
    qed
  qed
qed

subsection \<open>The first match of a pattern\<close>

text \<open>The matcher lists the matches in the order of backtracking, so the match a search
  returns is the head of the list. The head of a sequence is found through the head of its
  first part whenever the second part matches from there; a greedy iteration goes on as long
  as its body matches.\<close>

lemma first_Seq:
  "m a st = x # xs \<Longrightarrow> m b x = y # ys \<Longrightarrow> \<exists>zs. m (Seq a b) st = y # zs"
  by simp

lemma first_Star:
  "m a (fst st, clear a (snd st)) = x # xs \<Longrightarrow> length (fst x) < length (fst st)
     \<Longrightarrow> m (Star True a) x = y # ys \<Longrightarrow> \<exists>zs. m (Star True a) st = y # zs"
  by (subst m.simps(8)) (simp add: Let_def)

lemma last_Star: "m a (fst st, clear a (snd st)) = [] \<Longrightarrow> m (Star True a) st = [st]"
  by (subst m.simps(8)) (simp add: Let_def)

lemma clear_no_groups: "groups a = [] \<Longrightarrow> clear a k = k"
  by (simp add: clear_def)

lemma first_Star_Cls:
  assumes "list_all (\<lambda>x. x \<in> set cs) u" and "rest = [] \<or> hd rest \<notin> set cs"
  shows "\<exists>zs. m (Star True (Cls False cs)) (u @ rest, k) = (rest, k) # zs"
  using assms(1)
proof (induction u)
  case Nil
  from assms(2) have "m (Cls False cs) (rest, k) = []"
    by (cases rest) auto
  then have "m (Star True (Cls False cs)) (rest, k) = [(rest, k)]"
    by (intro last_Star) (simp add: clear_no_groups)
  then show ?case by simp
next
  case (Cons x u)
  then have x: "x \<in> set cs" and u: "list_all (\<lambda>x. x \<in> set cs) u"
    by simp_all
  from Cons.IH[OF u] obtain zs where zs: "m (Star True (Cls False cs)) (u @ rest, k) = (rest, k) # zs"
    by blast
  from x have "m (Cls False cs) (fst ((x # u) @ rest, k), clear (Cls False cs) (snd ((x # u) @ rest, k)))
      = [(u @ rest, k)]"
    by (simp add: clear_no_groups)
  from first_Star[OF this _ zs] show ?case by simp
qed

subsection \<open>The path pattern on a path\<close>

lemma first_word:
  assumes "w \<noteq> []" and "hd w \<in> set cs" and "list_all (\<lambda>x. x \<in> set word_chars) (tl w)"
    and "rest = [] \<or> hd rest \<notin> set word_chars"
  shows "\<exists>zs. m (Seq (Cls False cs) (Star True re_w)) (w @ rest, k) = (rest, k) # zs"
proof -
  from assms(1,2,3) obtain c u where w: "w = c # u" and c: "c \<in> set cs"
    and u: "list_all (\<lambda>x. x \<in> set word_chars) u"
    by (cases w) auto
  from c have 1: "m (Cls False cs) (w @ rest, k) = [(u @ rest, k)]"
    by (simp add: w)
  from first_Star_Cls[OF u assms(4)] obtain zs where
    2: "m (Star True re_w) (u @ rest, k) = (rest, k) # zs"
    unfolding re_w_def by blast
  from first_Seq[OF 1 2] show ?thesis .
qed

lemma first_capitalised:
  assumes "capitalised w" and "rest = [] \<or> hd rest \<notin> set word_chars"
  shows "\<exists>zs. m (Seq (Cls False upper) (Star True re_w)) (w @ rest, k) = (rest, k) # zs"
  using assms first_word[of w upper rest k] by (simp add: capitalised_def)

lemma first_Alt1: "m a st = x # xs \<Longrightarrow> \<exists>zs. m (Alt a b) st = x # zs"
  by simp

lemma first_Alt2: "m a st = [] \<Longrightarrow> m b st = x # xs \<Longrightarrow> \<exists>zs. m (Alt a b) st = x # zs"
  by simp

lemma none_Alt: "m a st = [] \<Longrightarrow> m b st = [] \<Longrightarrow> m (Alt a b) st = []"
  by simp

lemma none_Seq: "m a st = [] \<Longrightarrow> m (Seq a b) st = []"
  by simp

lemma first_segment:
  assumes "segment w" and "rest = [] \<or> hd rest \<notin> set word_chars"
  shows "\<exists>zs. m (Alt (Seq (Cls False upper) (Star True re_w)) (Alt (lit ''iOS'') (lit ''iPad'')))
                 (w @ rest, k) = (rest, k) # zs"
proof -
  from assms(1) consider "capitalised w" | "w = ''iOS''" | "w = ''iPad''"
    by (auto simp: segment_def)
  then show ?thesis
  proof cases
    case 1
    from first_capitalised[OF 1 assms(2)] obtain zs where
      "m (Seq (Cls False upper) (Star True re_w)) (w @ rest, k) = (rest, k) # zs"
      by blast
    then show ?thesis by (rule first_Alt1)
  next
    case 2
    have "m (Cls False upper) (w @ rest, k) = []"
      by (simp add: 2 upper_def)
    then have a: "m (Seq (Cls False upper) (Star True re_w)) (w @ rest, k) = []"
      by (rule none_Seq)
    have "m (lit ''iOS'') (w @ rest, k) = [(rest, k)]"
      unfolding m_lit by (simp add: 2)
    then obtain zs where "m (Alt (lit ''iOS'') (lit ''iPad'')) (w @ rest, k) = (rest, k) # zs"
      using first_Alt1 by blast
    from first_Alt2[OF a this] show ?thesis .
  next
    case 3
    have "m (Cls False upper) (w @ rest, k) = []"
      by (simp add: 3 upper_def)
    then have a: "m (Seq (Cls False upper) (Star True re_w)) (w @ rest, k) = []"
      by (rule none_Seq)
    have b: "m (lit ''iOS'') (w @ rest, k) = []"
      unfolding m_lit by (simp add: 3)
    have "m (lit ''iPad'') (w @ rest, k) = [(rest, k)]"
      unfolding m_lit by (simp add: 3)
    from first_Alt2[OF b this] obtain zs where
      "m (Alt (lit ''iOS'') (lit ''iPad'')) (w @ rest, k) = (rest, k) # zs"
      by blast
    from first_Alt2[OF a this] show ?thesis .
  qed
qed

lemma lower_not_upper: "c \<in> set lower \<Longrightarrow> c \<notin> set upper"
  by (auto simp: lower_def upper_def)

lemma no_segment:
  assumes "w = [] \<or> fragment w"
  shows "m (Alt (Seq (Cls False upper) (Star True re_w)) (Alt (lit ''iOS'') (lit ''iPad''))) (w, k) = []"
proof -
  have "m (Cls False upper) (w, k) = []"
  proof (cases w)
    case Nil
    then show ?thesis by simp
  next
    case (Cons c u)
    with assms have "c \<in> set lower" by (simp add: fragment_def)
    then have "c \<notin> set upper" by (rule lower_not_upper)
    with Cons show ?thesis by simp
  qed
  then have a: "m (Seq (Cls False upper) (Star True re_w)) (w, k) = []"
    by (rule none_Seq)
  from assms have "\<not> prefix ''iOS'' w" "\<not> prefix ''iPad'' w"
    by (auto simp: fragment_def)
  then have "m (lit ''iOS'') (w, k) = []" "m (lit ''iPad'') (w, k) = []"
    unfolding m_lit by simp_all
  then have "m (Alt (lit ''iOS'') (lit ''iPad'')) (w, k) = []"
    by (rule none_Alt)
  with a show ?thesis by (rule none_Alt)
qed

lemma groups_lit: "groups (lit w) = []"
  by (induction w rule: lit.induct) simp_all

lemma dot_no_word_char: "CHR ''.'' \<notin> set word_chars"
  by (simp add: word_chars_def lower_def upper_def digit_def)

lemma first_opt_dot:
  "\<exists>zs. m (opt (Chr CHR ''.'')) (CHR ''.'' # rest, k) = (rest, k) # zs"
  by (simp add: opt_def)

lemma first_opt_end: "m (opt (Chr CHR ''.'')) ([], k) = [([], k)]"
  by (simp add: opt_def)

lemma first_segment_dot:
  assumes "segment w"
  shows "\<exists>zs. m (Seq (Alt (Seq (Cls False upper) (Star True re_w)) (Alt (lit ''iOS'') (lit ''iPad'')))
                     (opt (Chr CHR ''.''))) (w @ ''.'' @ rest, k) = (rest, k) # zs"
proof -
  have "''.'' @ rest = [] \<or> hd (''.'' @ rest) \<notin> set word_chars"
    by (simp add: dot_no_word_char)
  from first_segment[OF assms this] obtain zs where
    1: "m (Alt (Seq (Cls False upper) (Star True re_w)) (Alt (lit ''iOS'') (lit ''iPad'')))
          (w @ ''.'' @ rest, k) = (''.'' @ rest, k) # zs"
    by blast
  from first_opt_dot[of rest k] obtain ys where
    2: "m (opt (Chr CHR ''.'')) (''.'' @ rest, k) = (rest, k) # ys"
    by auto
  from first_Seq[OF 1 2] show ?thesis .
qed

lemma segment_not_fragment:
  assumes "segment w"
  shows "\<not> fragment w"
proof
  assume f: "fragment w"
  from assms consider "capitalised w" | "w = ''iOS''" | "w = ''iPad''"
    by (auto simp: segment_def)
  then show False
  proof cases
    case 1
    with f lower_not_upper[of "hd w"] show False
      by (simp add: capitalised_def fragment_def)
  next
    case 2
    with f show False by (simp add: fragment_def)
  next
    case 3
    with f show False by (simp add: fragment_def)
  qed
qed

lemma segment_nonempty: "segment w \<Longrightarrow> w \<noteq> []"
  by (auto simp: segment_def capitalised_def)

lemma first_segments:
  fixes body
  defines "body \<equiv> Seq (Alt (Seq (Cls False upper) (Star True re_w)) (Alt (lit ''iOS'') (lit ''iPad'')))
                     (opt (Chr CHR ''.''))"
  assumes "list_all segment segs" and "m (Star True body) (tail, k) = y # ys"
  shows "\<exists>zs. m (Star True body) (concat (map (\<lambda>w. w @ ''.'') segs) @ tail, k) = y # zs"
  using assms(2)
proof (induction segs)
  case Nil
  with assms(3) show ?case by simp
next
  case (Cons w segs)
  then have w: "segment w" and segs: "list_all segment segs"
    by simp_all
  from Cons.IH[OF segs] obtain zs where
    zs: "m (Star True body) (concat (map (\<lambda>w. w @ ''.'') segs) @ tail, k) = y # zs"
    by blast
  have g: "clear body k = k"
    by (rule clear_no_groups) (simp add: body_def groups_lit opt_def re_w_def)
  from first_segment_dot[OF w, of "concat (map (\<lambda>w. w @ ''.'') segs) @ tail" k] obtain xs where
    "m body (w @ ''.'' @ concat (map (\<lambda>w. w @ ''.'') segs) @ tail, k)
       = (concat (map (\<lambda>w. w @ ''.'') segs) @ tail, k) # xs"
    unfolding body_def by blast
  then have "m body (fst (concat (map (\<lambda>w. w @ ''.'') (w # segs)) @ tail, k),
             clear body (snd (concat (map (\<lambda>w. w @ ''.'') (w # segs)) @ tail, k)))
       = (concat (map (\<lambda>w. w @ ''.'') segs) @ tail, k) # xs"
    by (simp add: g)
  from first_Star[OF this _ zs] show ?case by simp
qed

lemma first_path_end:
  fixes body
  defines "body \<equiv> Seq (Alt (Seq (Cls False upper) (Star True re_w)) (Alt (lit ''iOS'') (lit ''iPad'')))
                     (opt (Chr CHR ''.''))"
  assumes "w = [] \<or> segment w \<or> fragment w"
  shows "\<exists>zs. m (Star True body) (w, k) = (if fragment w then w else [], k) # zs"
proof -
  have g: "clear body k = k"
    by (rule clear_no_groups) (simp add: body_def groups_lit opt_def re_w_def)
  have stop: "m (Star True body) (u, k) = [(u, k)]" if "u = [] \<or> fragment u" for u
  proof -
    from no_segment[OF that] have "m body (u, k) = []"
      unfolding body_def by (rule none_Seq)
    then show ?thesis
      by (intro last_Star) (simp add: g)
  qed
  show ?thesis
  proof (cases "segment w")
    case True
    from first_segment[OF True, of "[]" k] obtain xs where
      1: "m (Alt (Seq (Cls False upper) (Star True re_w)) (Alt (lit ''iOS'') (lit ''iPad''))) (w, k)
            = ([], k) # xs"
      by auto
    from first_Seq[OF 1 first_opt_end] obtain ys where "m body (w, k) = ([], k) # ys"
      unfolding body_def by blast
    then have 2: "m body (fst (w, k), clear body (snd (w, k))) = ([], k) # ys"
      by (simp add: g)
    from segment_nonempty[OF True] have 3: "length (fst ([], k)) < length (fst (w, k))"
      by simp
    from first_Star[OF 2 3 stop[of "[]"]] segment_not_fragment[OF True] show ?thesis
      by simp
  next
    case False
    with assms have "w = [] \<or> fragment w" by blast
    from stop[OF this] this show ?thesis by auto
  qed
qed

lemma first_fragments:
  fixes frag
  defines "frag \<equiv> Grp 2 (Seq (Cls False lower) (Star True re_w))"
  shows "m (Star True frag) ([], k) = [([], k)]"
    and "fragment w \<Longrightarrow>
           \<exists>zs. m (Star True frag) (w, k) = ([], (2, w) # filter (\<lambda>p. fst p \<noteq> 2) k) # zs"
proof -
  have stop: "m (Star True frag) ([], k') = [([], k')]" for k'
    by (rule last_Star) (simp add: frag_def)
  from stop show "m (Star True frag) ([], k) = [([], k)]" .
  assume f: "fragment w"
  have c: "clear frag k = filter (\<lambda>p. fst p \<noteq> 2) k"
    by (simp add: clear_def frag_def re_w_def)
  from f first_word[of w lower "[]" "clear frag k"] obtain xs where
    "m (Seq (Cls False lower) (Star True re_w)) (w, clear frag k) = ([], clear frag k) # xs"
    by (auto simp: fragment_def)
  then obtain ys where "m frag (w, clear frag k) = ([], (2, w) # clear frag k) # ys"
    by (simp add: frag_def)
  then have 1: "m frag (fst (w, k), clear frag (snd (w, k))) = ([], (2, w) # clear frag k) # ys"
    by simp
  from f have 2: "length (fst ([], (2, w) # clear frag k)) < length (fst (w, k))"
    by (simp add: fragment_def)
  from first_Star[OF 1 2 stop] show
    "\<exists>zs. m (Star True frag) (w, k) = ([], (2, w) # filter (\<lambda>p. fst p \<noteq> 2) k) # zs"
    by (simp add: c)
qed

lemma first_Grp:
  "m a st = x # xs \<Longrightarrow>
     \<exists>zs. m (Grp n a) st = (fst x, (n, take (length (fst st) - length (fst x)) (fst st)) # snd x) # zs"
  by simp

lemma m_re_ti_api_path:
  assumes "list_all segment segs" and "w = [] \<or> segment w \<or> fragment w"
  shows "\<exists>caps zs. m re_ti_api (''Ti.'' @ concat (map (\<lambda>w. w @ ''.'') segs) @ w, []) = ([], caps) # zs
           \<and> map_of caps 1 = Some (''Ti.'' @ concat (map (\<lambda>w. w @ ''.'') segs)
                                      @ (if fragment w then [] else w))
           \<and> map_of caps 2 = (if fragment w then Some w else None)"
proof -
  define body where "body = Seq (Alt (Seq (Cls False upper) (Star True re_w))
                                   (Alt (lit ''iOS'') (lit ''iPad''))) (opt (Chr CHR ''.''))"
  define frag where "frag = Grp 2 (Seq (Cls False lower) (Star True re_w))"
  define path where "path = concat (map (\<lambda>w. w @ ''.'') segs)"
  define t where "t = (if fragment w then w else [])"
  define g1 where "g1 = ''Ti.'' @ path @ (if fragment w then [] else w)"
  have shape: "re_ti_api = Seq (Grp 1 (Seq (lit ''Ti.'') (Star True body))) (Seq (Star True frag) Eoi)"
    by (simp add: re_ti_api_def body_def frag_def)
  from first_path_end[OF assms(2), of "[]"] obtain ys where
    "m (Star True body) (w, []) = (t, []) # ys"
    unfolding body_def t_def by blast
  from first_segments[OF assms(1) this[unfolded body_def]] obtain zs where
    1: "m (Star True body) (path @ w, []) = (t, []) # zs"
    unfolding body_def path_def by blast
  have 0: "m (lit ''Ti.'') (''Ti.'' @ path @ w, []) = [(path @ w, [])]"
    unfolding m_lit by simp
  from first_Seq[OF 0 1] obtain zs1 where
    "m (Seq (lit ''Ti.'') (Star True body)) (''Ti.'' @ path @ w, []) = (t, []) # zs1"
    by blast
  from first_Grp[OF this, of 1] obtain zs2 where
    "m (Grp 1 (Seq (lit ''Ti.'') (Star True body))) (''Ti.'' @ path @ w, []) =
       (t, [(1, take (length (''Ti.'' @ path @ w) - length t) (''Ti.'' @ path @ w))]) # zs2"
    by auto
  moreover have "take (length (p @ w) - length t) (p @ w) = p @ (if fragment w then [] else w)"
    for p :: string
    by (simp add: t_def)
  from this[of "''Ti.'' @ path"]
  have "take (length (''Ti.'' @ path @ w) - length t) (''Ti.'' @ path @ w) = g1"
    unfolding g1_def append_assoc .
  ultimately have 2: "m (Grp 1 (Seq (lit ''Ti.'') (Star True body))) (''Ti.'' @ path @ w, []) =
       (t, [(1, g1)]) # zs2"
    by simp
  have "\<exists>zs3. m (Star True frag) (t, [(1, g1)]) =
          ([], (if fragment w then [(2, w)] else []) @ [(1, g1)]) # zs3"
  proof (cases "fragment w")
    case True
    from first_fragments(2)[OF True, of "[(1, g1)]"] True show ?thesis
      by (simp add: frag_def t_def)
  next
    case False
    with first_fragments(1)[of "[(1, g1)]"] show ?thesis
      by (simp add: frag_def t_def)
  qed
  then obtain zs3 where
    3: "m (Star True frag) (t, [(1, g1)]) =
          ([], (if fragment w then [(2, w)] else []) @ [(1, g1)]) # zs3"
    by blast
  have 4: "m Eoi ([], (if fragment w then [(2, w)] else []) @ [(1, g1)]) =
      [([], (if fragment w then [(2, w)] else []) @ [(1, g1)])]"
    by simp
  from first_Seq[OF 3 4] obtain zs4 where
    "m (Seq (Star True frag) Eoi) (t, [(1, g1)]) =
       ([], (if fragment w then [(2, w)] else []) @ [(1, g1)]) # zs4"
    by blast
  from first_Seq[OF 2 this] obtain zs5 where
    "m re_ti_api (''Ti.'' @ path @ w, []) =
       ([], (if fragment w then [(2, w)] else []) @ [(1, g1)]) # zs5"
    unfolding shape by blast
  then show ?thesis
    unfolding path_def g1_def by (intro exI conjI) (assumption, simp_all)
qed

subsection \<open>Where the search finds the path\<close>

lemma search_skip:
  "(\<forall>i<n. m r (drop i s, []) = []) \<Longrightarrow> n \<le> length s \<Longrightarrow> m r (drop n s, []) = x # xs
     \<Longrightarrow> search r s j = Some (j + n, x)"
proof (induction s arbitrary: n j)
  case Nil
  then show ?case by simp
next
  case (Cons c s)
  show ?case
  proof (cases n)
    case 0
    with Cons.prems show ?thesis by simp
  next
    case (Suc n')
    from Cons.prems(1) Suc have "m r (drop 0 (c # s), []) = []" by blast
    then have 0: "m r (c # s, []) = []" by simp
    from Cons.prems(1) Suc have 1: "\<forall>i<n'. m r (drop i s, []) = []" by fastforce
    from Cons.prems(2,3) Suc have 2: "n' \<le> length s" "m r (drop n' s, []) = x # xs"
      by simp_all
    from Cons.IH[OF 1 2, of "Suc j"] 0 Suc show ?thesis by simp
  qed
qed

lemma within_lit: "within A (lit w) = (set w \<subseteq> A)"
  by (induction w rule: lit.induct) simp_all

lemma m_within:
  "st' \<in> set (m r st) \<Longrightarrow> within A r \<Longrightarrow> \<exists>u. fst st = u @ fst st' \<and> set u \<subseteq> A"
proof (induction r st arbitrary: st' rule: m.induct)
  case (5 a b st)
  from m_Seq_cases[OF "5.prems"(1)] obtain mid where
    mid: "mid \<in> set (m a st)" "st' \<in> set (m b mid)"
    by blast
  from "5.prems"(2) have w: "within A a" "within A b" by simp_all
  from "5.IH"(1)[OF mid(1) w(1)] "5.IH"(2)[OF mid w(2)] show ?case by auto
next
  case (6 a b st)
  from "6.prems"(1) have "st' \<in> set (m a st) \<or> st' \<in> set (m b st)" by simp
  moreover from "6.prems"(2) have "within A a" "within A b" by simp_all
  ultimately show ?case using "6.IH" by blast
next
  case (8 greedy a st)
  from m_Star_cases[OF "8.prems"(1)] consider "st' = st"
    | mid where "mid \<in> set (m a (fst st, clear a (snd st)))"
        "length (fst mid) < length (fst st)" "st' \<in> set (m (Star greedy a) mid)"
    by blast
  then show ?case
  proof cases
    case 1
    then show ?thesis by simp
  next
    case 2
    from "8.prems"(2) have w: "within A a" by simp
    from "8.IH"(1)[OF 2(1) w] "8.IH"(2)[OF 2(1) 2(2) 2(3) "8.prems"(2)] show ?thesis by auto
  qed
next
  case (2 neg cs st)
  then show ?case
    by (cases "fst st") (auto split: if_splits)
qed (auto split: list.splits if_splits)

lemma m_re_ti_api_none:
  assumes "c \<in> set s" and "c \<notin> set path_chars"
  shows "m re_ti_api (s, []) = []"
proof (rule ccontr)
  assume "m re_ti_api (s, []) \<noteq> []"
  then obtain st where st: "st \<in> set (m re_ti_api (s, []))"
    by (cases "m re_ti_api (s, [])") auto
  have "set ''TiOSPad'' \<subseteq> set (lower @ upper)"
    by (simp add: lower_def upper_def)
  then have "within (set path_chars) re_ti_api"
    by (auto simp: re_ti_api_def within_lit re_w_def opt_def path_chars_def word_chars_def)
  from m_within[OF st this] obtain u where u: "s = u @ fst st" "set u \<subseteq> set path_chars"
    by auto
  obtain a b where shape: "re_ti_api = Seq a (Seq b Eoi)"
    by (simp add: re_ti_api_def)
  from m_Seq_cases[OF st[unfolded shape]] obtain mid where "st \<in> set (m (Seq b Eoi) mid)"
    by blast
  from m_Seq_cases[OF this] obtain mid' where "st \<in> set (m Eoi mid')"
    by blast
  then have "fst st = []"
    by (simp split: if_splits)
  with u assms show False by auto
qed

lemma match_path:
  assumes "pre = [] \<or> last pre \<notin> set path_chars" and "list_all segment segs"
    and "w = [] \<or> segment w \<or> fragment w"
  shows "\<exists>ms. match (pre @ ''Ti.'' @ concat (map (\<lambda>w. w @ ''.'') segs) @ w) re_ti_api = Some ms
           \<and> elem ms 1 = Some (''Ti.'' @ concat (map (\<lambda>w. w @ ''.'') segs)
                                   @ (if fragment w then [] else w))
           \<and> elem ms 2 = (if fragment w then Some w else None)"
proof -
  define s where "s = ''Ti.'' @ concat (map (\<lambda>w. w @ ''.'') segs) @ w"
  from m_re_ti_api_path[OF assms(2,3)] obtain caps zs where
    first: "m re_ti_api (s, []) = ([], caps) # zs"
    and 1: "map_of caps 1 = Some (''Ti.'' @ concat (map (\<lambda>w. w @ ''.'') segs)
                                   @ (if fragment w then [] else w))"
    and 2: "map_of caps 2 = (if fragment w then Some w else None)"
    unfolding s_def by blast
  have none: "m re_ti_api (drop i (pre @ s), []) = []" if "i < length pre" for i
  proof -
    from that have ne: "drop i pre \<noteq> []" and l: "last (drop i pre) = last pre"
      by simp_all
    from ne have "last (drop i pre) \<in> set (drop i pre)"
      by (rule last_in_set)
    with l that have "last pre \<in> set (drop i (pre @ s))" by simp
    moreover from assms(1) that have "last pre \<notin> set path_chars" by auto
    ultimately show ?thesis by (rule m_re_ti_api_none)
  qed
  from first have "m re_ti_api (drop (length pre) (pre @ s), []) = ([], caps) # zs"
    by simp
  from search_skip[OF _ _ this, of 0] none
  have found: "search re_ti_api (pre @ s) 0 = Some (length pre, ([], caps))"
    by simp
  have g: "map (map_of caps) [1 ..< Suc (length (groups re_ti_api))] = [map_of caps 1, map_of caps 2]"
    by (simp add: re_ti_api_def re_w_def opt_def groups_lit upt_rec numeral_2_eq_2)
  from found g 1 2 show ?thesis
    unfolding s_def[symmetric]
    by (simp add: match_def exec_def regex_def Let_def elem_def)
qed

lemma api_path_dots:
  "''Ti.'' @ concat (map (\<lambda>w. w @ ''.'') segs) @ x = (api_path segs @ ''.'') @ x"
proof -
  have "''.'' @ concat (map (\<lambda>w. w @ ''.'') segs) = concat (map (\<lambda>w. ''.'' @ w) segs) @ ''.''"
    by (induction segs) simp_all
  then show ?thesis by (simp add: api_path_def)
qed

lemma api_path_snoc: "api_path (segs @ [w]) = api_path segs @ ''.'' @ w"
  by (simp add: api_path_def)

lemma strip_dot_snoc: "strip_dot (x @ ''.'') = x"
  by (simp add: strip_dot_def)

lemma strip_dot_keep: "w \<noteq> [] \<Longrightarrow> last w \<noteq> CHR ''.'' \<Longrightarrow> strip_dot (x @ w) = x @ w"
  by (simp add: strip_dot_def)

lemma segment_last:
  assumes "segment w"
  shows "last w \<noteq> CHR ''.''"
proof -
  from assms consider "capitalised w" | "w = ''iOS''" | "w = ''iPad''"
    by (auto simp: segment_def)
  then show ?thesis
  proof cases
    case 1
    then obtain c u where w: "w = c # u" and c: "c \<in> set upper"
      and u: "list_all (\<lambda>x. x \<in> set word_chars) u"
      by (cases w) (auto simp: capitalised_def)
    from c have "c \<in> set word_chars" by (simp add: word_chars_def)
    with u w have "last w \<in> set word_chars"
      by (cases "u = []") (auto simp: list_all_iff)
    with dot_no_word_char show ?thesis by auto
  qed simp_all
qed

text \<open>What the function resolves from a path.\<close>

lemma ti_resolved_path:
  assumes "pre = [] \<or> last pre \<notin> set path_chars" and "list_all segment segs"
    and "w = [] \<or> segment w \<or> fragment w"
  shows "ti_resolved (pre @ ''Ti.'' @ concat (map (\<lambda>w. w @ ''.'') segs) @ w) =
     Some (if w = [] then (api_path segs, None)
           else if fragment w \<and> \<not> begins_namespace w then (api_path segs, Some w)
           else (api_path (segs @ [w]), None))"
proof -
  from match_path[OF assms] obtain ms where
    ms: "match (pre @ ''Ti.'' @ concat (map (\<lambda>w. w @ ''.'') segs) @ w) re_ti_api = Some ms"
    and 1: "elem ms 1 = Some ((api_path segs @ ''.'') @ (if fragment w then [] else w))"
    and 2: "elem ms 2 = (if fragment w then Some w else None)"
    unfolding api_path_dots[of segs "if fragment w then [] else w"] by blast
  show ?thesis
  proof (cases "fragment w")
    case True
    then have "w \<noteq> []" by (simp add: fragment_def)
    with True ms 1 2 show ?thesis
      by (simp add: ti_resolved_def strip_dot_snoc api_path_snoc begins_namespace_def)
  next
    case False
    show ?thesis
    proof (cases "w = []")
      case True
      with False ms 1 2 show ?thesis
        by (simp add: ti_resolved_def strip_dot_snoc)
    next
      case ne: False
      with False assms(3) have s: "segment w" by blast
      from strip_dot_keep[OF ne segment_last[OF s], of "api_path segs @ ''.''"]
      have "strip_dot ((api_path segs @ ''.'') @ w) = api_path (segs @ [w])"
        unfolding api_path_snoc by simp
      with False ne ms 1 2 show ?thesis
        by (simp add: ti_resolved_def)
    qed
  qed
qed

subsection \<open>The claim\<close>

text \<open>
  Claim C4, as amended. Let the text before the cursor end in a Titanium API path: after a
  character that is neither a word character nor a dot, or at the start of the text, there
  stands \<^verbatim>\<open>Ti.\<close>, then segments that each end in a dot, and then \<open>w\<close>, which is nothing, one
  more segment, or an attribute fragment. The resolved API name is \<^verbatim>\<open>Ti\<close> with the segments,
  \<open>w\<close> among them when it is a segment; the attribute fragment is \<open>w\<close> when \<open>w\<close> is a
  fragment, except that a fragment which \<^verbatim>\<open>iOS\<close> or \<^verbatim>\<open>iPad\<close> begins with counts as a segment
  being typed and not as a fragment. Then \<open>getTitaniumApiCompletions\<close> returns exactly: when
  no attribute fragment is typed, one Class item per key of the catalog's types that starts
  with the resolved API name and holds no underscore; then, when the resolved name is a key
  of the catalog, one item per function and one per property of that type whose name the
  fragment matches (every name when there is no fragment) and that does not contain
  \<^verbatim>\<open>deprecated\<close>. The items stand in the catalog's order: keys, functions, properties.
\<close>

theorem getTitaniumApiCompletions_spec:
  assumes "pre = [] \<or> last pre \<notin> set path_chars"
    and "list_all segment segs"
    and "linePrefix = pre @ ''Ti.'' @ concat (map (\<lambda>w. w @ ''.'') segs) @ w"
  shows "(w = [] \<longrightarrow>
            getTitaniumApiCompletions env c linePrefix =
              Inr (ti_completions env (titanium_types c) (api_path segs) None))
       \<and> (segment w \<longrightarrow>
            getTitaniumApiCompletions env c linePrefix =
              Inr (ti_completions env (titanium_types c) (api_path (segs @ [w])) None))
       \<and> (fragment w \<and> begins_namespace w \<longrightarrow>
            getTitaniumApiCompletions env c linePrefix =
              Inr (ti_completions env (titanium_types c) (api_path (segs @ [w])) None))
       \<and> (fragment w \<and> \<not> begins_namespace w \<longrightarrow>
            getTitaniumApiCompletions env c linePrefix =
              Inr (ti_completions env (titanium_types c) (api_path segs) (Some w)))"
proof -
  have r: "getTitaniumApiCompletions env c linePrefix =
      Inr (case (if w = [] then (api_path segs, None)
                 else if fragment w \<and> \<not> begins_namespace w then (api_path segs, Some w)
                 else (api_path (segs @ [w]), None)) of
             (apiName, attribute) \<Rightarrow> ti_completions env (titanium_types c) apiName attribute)"
    if "w = [] \<or> segment w \<or> fragment w"
    unfolding getTitaniumApiCompletions_resolved assms(3) ti_resolved_path[OF assms(1,2) that]
    by simp
  have s: "w \<noteq> [] \<and> \<not> fragment w" if "segment w"
    using that segment_nonempty segment_not_fragment by blast
  have f: "w \<noteq> []" if "fragment w"
    using that by (simp add: fragment_def)
  show ?thesis
  proof (intro conjI impI)
    assume "w = []"
    with r show "getTitaniumApiCompletions env c linePrefix =
        Inr (ti_completions env (titanium_types c) (api_path segs) None)"
      by simp
  next
    assume "segment w"
    with r s show "getTitaniumApiCompletions env c linePrefix =
        Inr (ti_completions env (titanium_types c) (api_path (segs @ [w])) None)"
      by simp
  next
    assume "fragment w \<and> begins_namespace w"
    with r f show "getTitaniumApiCompletions env c linePrefix =
        Inr (ti_completions env (titanium_types c) (api_path (segs @ [w])) None)"
      by simp
  next
    assume "fragment w \<and> \<not> begins_namespace w"
    with r f show "getTitaniumApiCompletions env c linePrefix =
        Inr (ti_completions env (titanium_types c) (api_path segs) (Some w))"
      by simp
  qed
qed

text \<open>Four texts before the cursor: a path that ends in a dot, one that ends in a segment,
  one that ends in the beginning of \<^verbatim>\<open>iOS\<close>, and one with an attribute fragment.\<close>

theorem getTitaniumApiCompletions_spec_witness:
  "getTitaniumApiCompletions example_env api_catalog ''  var w = Ti.UI.'' =
     Inr [class_item ''Ti.UI'', class_item ''Ti.UI.iOS'', class_item ''Ti.UI.View'',
          item ''createView'' Method, item ''insets'' Property]
   \<and> getTitaniumApiCompletions example_env api_catalog ''x = Ti.UI.View'' =
       Inr [class_item ''Ti.UI.View'', item ''add'' Method, item ''opacity'' Property]
   \<and> getTitaniumApiCompletions example_env api_catalog ''Ti.UI.iO'' =
       Inr [class_item ''Ti.UI.iOS'']
   \<and> getTitaniumApiCompletions example_env api_catalog ''Ti.API.in'' =
       Inr [item ''info'' Method]"
proof -
  have pre1: "''  var w = '' = [] \<or> last ''  var w = '' \<notin> set path_chars"
    and pre2: "''x = '' = [] \<or> last ''x = '' \<notin> set path_chars"
    and pre3: "[] = ([] :: string) \<or> last [] \<notin> set path_chars"
    by code_simp+
  have segs: "list_all segment [''UI'']" "list_all segment [''API'']"
    by code_simp+
  have lp1: "''  var w = Ti.UI.'' = ''  var w = '' @ ''Ti.'' @ concat (map (\<lambda>w. w @ ''.'') [''UI'']) @ []"
    and lp2: "''x = Ti.UI.View'' = ''x = '' @ ''Ti.'' @ concat (map (\<lambda>w. w @ ''.'') [''UI'']) @ ''View''"
    and lp3: "''Ti.UI.iO'' = [] @ ''Ti.'' @ concat (map (\<lambda>w. w @ ''.'') [''UI'']) @ ''iO''"
    and lp4: "''Ti.API.in'' = [] @ ''Ti.'' @ concat (map (\<lambda>w. w @ ''.'') [''API'']) @ ''in''"
    by simp_all
  have w2: "segment ''View''"
    and w3: "fragment ''iO'' \<and> begins_namespace ''iO''"
    and w4: "fragment ''in'' \<and> \<not> begins_namespace ''in''"
    by code_simp+
  have r1: "ti_completions example_env (titanium_types api_catalog) (api_path [''UI'']) None =
      [class_item ''Ti.UI'', class_item ''Ti.UI.iOS'', class_item ''Ti.UI.View'',
       item ''createView'' Method, item ''insets'' Property]"
    and r2: "ti_completions example_env (titanium_types api_catalog) (api_path ([''UI''] @ [''View''])) None =
      [class_item ''Ti.UI.View'', item ''add'' Method, item ''opacity'' Property]"
    and r3: "ti_completions example_env (titanium_types api_catalog) (api_path ([''UI''] @ [''iO''])) None =
      [class_item ''Ti.UI.iOS'']"
    and r4: "ti_completions example_env (titanium_types api_catalog) (api_path [''API'']) (Some ''in'') =
      [item ''info'' Method]"
    by code_simp+
  from getTitaniumApiCompletions_spec[OF pre1 segs(1) lp1, of example_env api_catalog,
      THEN conjunct1, THEN mp, OF refl]
    getTitaniumApiCompletions_spec[OF pre2 segs(1) lp2, of example_env api_catalog,
      THEN conjunct2, THEN conjunct1, THEN mp, OF w2]
    getTitaniumApiCompletions_spec[OF pre3 segs(1) lp3, of example_env api_catalog,
      THEN conjunct2, THEN conjunct2, THEN conjunct1, THEN mp, OF w3]
    getTitaniumApiCompletions_spec[OF pre3 segs(2) lp4, of example_env api_catalog,
      THEN conjunct2, THEN conjunct2, THEN conjunct2, THEN mp, OF w4]
  show ?thesis unfolding r1 r2 r3 r4 by (intro conjI)
qed

text \<open>The claim as it stands fails at \<^verbatim>\<open>Ti.API.i\<close>: the name \<^verbatim>\<open>Ti.API\<close> is a key of the
  catalog and its function \<^verbatim>\<open>info\<close> matches the fragment \<^verbatim>\<open>i\<close>, so the claim has one item,
  and the function returns none; at \<^verbatim>\<open>Ti.UI.i\<close> it returns a Class item although a fragment
  is typed.\<close>

theorem getTitaniumApiCompletions_spec_counterexample:
  "ti_completions example_env (titanium_types api_catalog) ''Ti.API'' (Some ''i'') =
     [item ''info'' Method]
   \<and> getTitaniumApiCompletions example_env api_catalog ''Ti.API.i'' = Inr []
   \<and> getTitaniumApiCompletions example_env api_catalog ''Ti.UI.i'' = Inr [class_item ''Ti.UI.iOS'']"
proof (intro conjI)
  show "ti_completions example_env (titanium_types api_catalog) ''Ti.API'' (Some ''i'') =
     [item ''info'' Method]"
    by code_simp
  show "getTitaniumApiCompletions example_env api_catalog ''Ti.API.i'' = Inr []"
    by code_simp
  show "getTitaniumApiCompletions example_env api_catalog ''Ti.UI.i'' = Inr [class_item ''Ti.UI.iOS'']"
    by code_simp
qed

section \<open>The ids of the related view\<close>

text \<open>
  Claim C3. The claim has \<open>getIdCompletions\<close> return one item per distinct value of an
  \<^verbatim>\<open>id="..."\<close> attribute of the related view, labelled with that value. The function
  collects the first group of each match of \<^verbatim>\<open>/id="(.+?)"/g\<close>, and the group takes at
  least one character: after \<^verbatim>\<open>id="\<close> of an attribute whose value is empty it takes the
  closing quote and runs on to the next quote of the line. In the view below a \<^verbatim>\<open>View\<close> has
  the id \<^verbatim>\<open>""\<close> and the \<^verbatim>\<open>Label\<close> in it the id \<^verbatim>\<open>real\<close>: an item for \<^verbatim>\<open>real\<close> is due,
  and the only item returned is labelled \<^verbatim>\<open>"><Label id=\<close>, which is the value of no
  attribute. In the example view, where every id has a value, the items are those of the
  claim: \<^verbatim>\<open>win\<close>, named twice, once, and \<^verbatim>\<open>title\<close>.
\<close>

theorem getIdCompletions_empty_id:
  "getIdCompletions (example_env\<lparr>openTextDocument := (\<lambda>p. Some empty_id_view)\<rparr>) =
     Inr [(item ([dquote] @ ''><Label id='') Reference)\<lparr>detail := Some ''index.xml''\<rparr>]
   \<and> sublist (''<Label id='' @ [dquote] @ ''real'' @ [dquote] @ ''/>'') empty_id_view
   \<and> getIdCompletions example_env =
       Inr [(item ''win'' Reference)\<lparr>detail := Some ''index.xml''\<rparr>,
            (item ''title'' Reference)\<lparr>detail := Some ''index.xml''\<rparr>]"
  by code_simp

section \<open>The event names of an element\<close>

text \<open>
  Claim C2. For \<^verbatim>\<open>$.<id>.addEventListener('\<close> the claim has \<open>getEventNameCompletions\<close> find
  the tag of the element that declares the id and return the events of the tag's type. The
  function finds the element but then looks the id itself up in the tag catalog
  (\<^verbatim>\<open>tagName = matches[1]\<close>, where \<open>getMethodAndPropertyCompletions\<close> has
  \<^verbatim>\<open>closestId[1]\<close>). In the example view \<^verbatim>\<open>win\<close> is the id of a \<^verbatim>\<open>Window\<close>: the
  events of \<^verbatim>\<open>Ti.UI.Window\<close> are due and the list is empty, while the sibling function
  resolves the tag. Where an id happens to be a tag's name, as the \<^verbatim>\<open>Label\<close> with id
  \<^verbatim>\<open>Window\<close>, the events of that name's type are returned, not those of the element's.
\<close>

theorem getEventNameCompletions_looks_up_id:
  "getEventNameCompletions example_env example_catalog (''$.win.addEventListener('' @ [squote]) = Inr []
   \<and> getMethodAndPropertyCompletions example_env example_catalog ''$.win.'' =
       Inr [(item ''open'' Method)\<lparr>insertText := Some (SnippetString ''open($1)$0'')\<rparr>,
            (item ''close'' Method)\<lparr>insertText := Some (SnippetString ''close($1)$0'')\<rparr>,
            (item ''title'' Property)\<lparr>insertText := Some (SnippetString ''title = $1$0'')\<rparr>,
            (item ''url-deprecated'' Property)
              \<lparr>insertText := Some (SnippetString ''url-deprecated = $1$0'')\<rparr>]
   \<and> getEventNameCompletions (example_env\<lparr>openTextDocument := (\<lambda>p. Some label_view)\<rparr>)
         example_catalog (''$.Window.addEventListener('' @ [squote]) =
       Inr [(item ''click'' Event)\<lparr>detail := Some ''Ti.UI.Window''\<rparr>,
            (item ''focus'' Event)\<lparr>detail := Some ''Ti.UI.Window''\<rparr>]"
  by code_simp

section \<open>The definition provider helper\<close>

subsection \<open>What the loop over the quotes finds\<close>

lemma search_Cls_Some:
  "search (Cls False cs) s i = Some (j, st) \<Longrightarrow>
     i \<le> j \<and> j - i < length s \<and> s ! (j - i) \<in> set cs \<and> (\<forall>k < j - i. s ! k \<notin> set cs)
     \<and> fst st = drop (Suc (j - i)) s"
proof (induction s arbitrary: i)
  case Nil
  then show ?case by simp
next
  case (Cons c s)
  show ?case
  proof (cases "c \<in> set cs")
    case True
    with Cons.prems show ?thesis by auto
  next
    case False
    with Cons.prems have "search (Cls False cs) s (Suc i) = Some (j, st)" by simp
    from Cons.IH[OF this] have ih: "Suc i \<le> j" "j - Suc i < length s"
      "s ! (j - Suc i) \<in> set cs" "\<forall>k < j - Suc i. s ! k \<notin> set cs"
      "fst st = drop (Suc (j - Suc i)) s"
      by blast+
    define d where "d = j - Suc i"
    from ih(1) have ji: "j - i = Suc d" by (simp add: d_def)
    from ih(4) False have "\<forall>k < Suc d. (c # s) ! k \<notin> set cs"
      by (auto simp: d_def nth_Cons')
    with ih ji show ?thesis by (simp add: d_def)
  qed
qed

lemma search_Cls_None:
  "search (Cls False cs) s i = None \<Longrightarrow> \<forall>k < length s. s ! k \<notin> set cs"
proof (induction s arbitrary: i)
  case Nil
  then show ?case by simp
next
  case (Cons c s)
  from Cons.prems have c: "c \<notin> set cs" and "search (Cls False cs) s (Suc i) = None"
    by (auto split: if_splits)
  from Cons.IH[OF this(2)] c show ?case
    by (auto simp: nth_Cons')
qed

lemma exec_from_quote_Some:
  assumes "exec_from re_quote ln i = Some (ms, i')"
  shows "i \<le> index ms \<and> quoteAt ln (index ms)
         \<and> (\<forall>k. i \<le> k \<and> k < index ms \<longrightarrow> \<not> quoteAt ln k) \<and> i' = Suc (index ms)"
proof -
  from assms have le: "i \<le> length ln"
    by (auto simp: exec_from_def exec_def regex_g_def Let_def split: if_splits)
  from assms obtain j st where s: "search (Cls False [dquote, squote]) (drop i ln) i = Some (j, st)"
    and j: "index ms = j" and i': "i' = length ln - length (fst st)"
    by (auto simp: exec_from_def exec_def regex_g_def re_quote_def Let_def
        split: if_splits option.splits)
  from search_Cls_Some[OF s] have f: "i \<le> j" "j - i < length (drop i ln)"
    "drop i ln ! (j - i) \<in> set [dquote, squote]"
    "\<forall>k < j - i. drop i ln ! k \<notin> set [dquote, squote]"
    "fst st = drop (Suc (j - i)) (drop i ln)"
    by blast+
  from f(1,2,3) le have q: "quoteAt ln j"
    by (simp add: quoteAt_def)
  have n: "\<not> quoteAt ln k" if "i \<le> k" "k < j" for k
  proof -
    from that have "k - i < j - i" by simp
    with f(4) have "drop i ln ! (k - i) \<notin> set [dquote, squote]" by blast
    with that f(2) le show ?thesis by (simp add: quoteAt_def)
  qed
  from f(1,2,5) i' le have "i' = Suc j" by simp
  with f(1) q n j show ?thesis by blast
qed

lemma exec_from_quote_None:
  assumes "exec_from re_quote ln i = None"
  shows "\<forall>k. i \<le> k \<longrightarrow> \<not> quoteAt ln k"
proof (cases "i \<le> length ln")
  case True
  with assms have "search (Cls False [dquote, squote]) (drop i ln) i = None"
    by (auto simp: exec_from_def exec_def regex_g_def re_quote_def Let_def
        split: if_splits option.splits)
  from search_Cls_None[OF this] have n: "\<forall>k < length ln - i. drop i ln ! k \<notin> set [dquote, squote]"
    by simp
  show ?thesis
  proof (intro allI impI)
    fix k assume k: "i \<le> k"
    show "\<not> quoteAt ln k"
    proof
      assume q: "quoteAt ln k"
      then have "k < length ln" by (simp add: quoteAt_def)
      with k have "k - i < length ln - i" by (simp add: diff_less_mono)
      with n have "drop i ln ! (k - i) \<notin> set [dquote, squote]" by blast
      with k q True show False by (simp add: quoteAt_def)
    qed
  qed
next
  case False
  then show ?thesis by (simp add: quoteAt_def)
qed

declare quoteLoop.simps [simp del]

lemma quoteLoop_start_none:
  "(\<forall>k. i \<le> k \<and> k < col \<longrightarrow> \<not> quoteAt ln k) \<Longrightarrow> fst (quoteLoop ln col i s e) = s"
proof (induction ln col i s e rule: quoteLoop.induct)
  case (1 ln col i s e)
  show ?case
  proof (cases "exec_from re_quote ln i")
    case None
    then show ?thesis by (subst quoteLoop.simps) simp
  next
    case (Some p)
    obtain ms i' where p: "p = (ms, i')" by (cases p)
    note f = exec_from_quote_Some[OF Some[unfolded p]]
    from f "1.prems" have ge: "col \<le> index ms" by (meson not_less)
    show ?thesis
    proof (cases "col < index ms")
      case True
      with Some p ge show ?thesis by (subst quoteLoop.simps) simp
    next
      case False
      with ge have eq: "index ms = col" by simp
      with f have "\<forall>k. i' \<le> k \<and> k < col \<longrightarrow> \<not> quoteAt ln k" by simp
      from "1.IH"(2)[OF Some[unfolded p] refl _ _ this] eq Some p show ?thesis
        by (subst quoteLoop.simps) simp
    qed
  qed
qed

lemma quoteLoop_start_some:
  "quoteAt ln s0 \<Longrightarrow> i \<le> s0 \<Longrightarrow> s0 < col \<Longrightarrow> (\<forall>k. s0 < k \<and> k < col \<longrightarrow> \<not> quoteAt ln k)
     \<Longrightarrow> fst (quoteLoop ln col i s e) = s0"
proof (induction ln col i s e rule: quoteLoop.induct)
  case (1 ln col i s e)
  show ?case
  proof (cases "exec_from re_quote ln i")
    case None
    from exec_from_quote_None[OF None] "1.prems" show ?thesis by blast
  next
    case (Some p)
    obtain ms i' where p: "p = (ms, i')" by (cases p)
    note f = exec_from_quote_Some[OF Some[unfolded p]]
    from f "1.prems"(1,2) have le: "index ms \<le> s0" by (meson not_less)
    with "1.prems"(3) have lt: "index ms < col" by simp
    show ?thesis
    proof (cases "index ms = s0")
      case True
      with f "1.prems"(4) have "\<forall>k. i' \<le> k \<and> k < col \<longrightarrow> \<not> quoteAt ln k" by simp
      from quoteLoop_start_none[OF this] True lt Some p show ?thesis
        by (subst quoteLoop.simps) simp
    next
      case False
      with le f have "i' \<le> s0" by simp
      from "1.IH"(1)[OF Some[unfolded p] refl lt "1.prems"(1) this "1.prems"(3,4)] lt Some p
      show ?thesis by (subst quoteLoop.simps) simp
    qed
  qed
qed

lemma quoteLoop_end_none:
  "(\<forall>k. col < k \<and> i \<le> k \<longrightarrow> \<not> quoteAt ln k) \<Longrightarrow> snd (quoteLoop ln col i s e) = e"
proof (induction ln col i s e rule: quoteLoop.induct)
  case (1 ln col i s e)
  show ?case
  proof (cases "exec_from re_quote ln i")
    case None
    then show ?thesis by (subst quoteLoop.simps) simp
  next
    case (Some p)
    obtain ms i' where p: "p = (ms, i')" by (cases p)
    note f = exec_from_quote_Some[OF Some[unfolded p]]
    from f "1.prems" have le: "index ms \<le> col" by (meson not_less)
    from f "1.prems" have n: "\<forall>k. col < k \<and> i' \<le> k \<longrightarrow> \<not> quoteAt ln k" by simp
    show ?thesis
    proof (cases "index ms < col")
      case True
      from "1.IH"(1)[OF Some[unfolded p] refl True n] True Some p show ?thesis
        by (subst quoteLoop.simps) simp
    next
      case False
      with le have nlt: "\<not> col < index ms" by simp
      from "1.IH"(2)[OF Some[unfolded p] refl False nlt n] False nlt Some p show ?thesis
        by (subst quoteLoop.simps) simp
    qed
  qed
qed

lemma quoteLoop_end_some:
  "quoteAt ln e0 \<Longrightarrow> col < e0 \<Longrightarrow> i \<le> e0 \<Longrightarrow> (\<forall>k. col < k \<and> k < e0 \<longrightarrow> \<not> quoteAt ln k)
     \<Longrightarrow> snd (quoteLoop ln col i s e) = e0"
proof (induction ln col i s e rule: quoteLoop.induct)
  case (1 ln col i s e)
  show ?case
  proof (cases "exec_from re_quote ln i")
    case None
    from exec_from_quote_None[OF None] "1.prems" show ?thesis by blast
  next
    case (Some p)
    obtain ms i' where p: "p = (ms, i')" by (cases p)
    note f = exec_from_quote_Some[OF Some[unfolded p]]
    from f "1.prems"(1,3) have le: "index ms \<le> e0" by (meson not_less)
    show ?thesis
    proof (cases "index ms < col")
      case True
      with "1.prems"(2) f have "i' \<le> e0" by simp
      from "1.IH"(1)[OF Some[unfolded p] refl True "1.prems"(1,2) this "1.prems"(4)] True Some p
      show ?thesis by (subst quoteLoop.simps) simp
    next
      case False
      show ?thesis
      proof (cases "col < index ms")
        case True
        with f le "1.prems"(4) have "index ms = e0" by (metis le_neq_implies_less)
        with True False Some p show ?thesis by (subst quoteLoop.simps) simp
      next
        case nlt: False
        with False have "index ms = col" by simp
        with "1.prems"(2) f have "i' \<le> e0" by simp
        from "1.IH"(2)[OF Some[unfolded p] refl False nlt "1.prems"(1,2) this "1.prems"(4)]
          False nlt Some p
        show ?thesis by (subst quoteLoop.simps) simp
      qed
    qed
  qed
qed

lemma quoteAt_iff: "quoteAt ln k \<longleftrightarrow> k \<in> set (quote_indices ln)"
  by (auto simp: quoteAt_def quote_indices_def)

lemma substring_between:
  "s < length ln \<Longrightarrow> s < e \<Longrightarrow> substring ln (s + 1) e = take (e - Suc s) (drop (Suc s) ln)"
  by (auto simp: substring_def Let_def min_def max_def)

text \<open>
  Claim C6, as amended. Let a quote stand before the cursor column, the last of them at an
  index \<open>s\<close> greater than 0. Then \<^verbatim>\<open>provideHover\<close> and \<^verbatim>\<open>provideDefinition\<close> take as the
  cursor's string the text after \<open>s\<close> up to the first quote after the cursor column, or up to
  the cursor column when no quote follows it. When no quote stands before the cursor column
  no value is taken: \<^verbatim>\<open>provideHover\<close> returns nothing and \<^verbatim>\<open>provideDefinition\<close> uses the
  empty string. (A quote at the cursor column counts for neither side. The case of a last
  quote at index 0 is left open.)
\<close>

theorem string_under_cursor:
  "(quoteAt ln s \<and> 0 < s \<and> s < col \<and> (\<forall>k. s < k \<and> k < col \<longrightarrow> \<not> quoteAt ln k)
      \<and> quoteAt ln e \<and> col < e \<and> (\<forall>k. col < k \<and> k < e \<longrightarrow> \<not> quoteAt ln k)
    \<longrightarrow> hoverValue ln col = Some (take (e - Suc s) (drop (Suc s) ln))
        \<and> definitionValue ln col = take (e - Suc s) (drop (Suc s) ln))
   \<and> (quoteAt ln s \<and> 0 < s \<and> s < col \<and> (\<forall>k. s < k \<and> k < col \<longrightarrow> \<not> quoteAt ln k)
      \<and> (\<forall>k. col < k \<longrightarrow> \<not> quoteAt ln k)
    \<longrightarrow> hoverValue ln col = Some (take (col - Suc s) (drop (Suc s) ln))
        \<and> definitionValue ln col = take (col - Suc s) (drop (Suc s) ln))
   \<and> ((\<forall>k. k < col \<longrightarrow> \<not> quoteAt ln k)
    \<longrightarrow> hoverValue ln col = None \<and> definitionValue ln col = []
        \<and> (\<forall>assets d p. lineAt d p = Inr ln \<and> character p = col
              \<longrightarrow> provideHover assets d p = Inr None))"
proof (intro conjI impI allI)
  assume a: "quoteAt ln s \<and> 0 < s \<and> s < col \<and> (\<forall>k. s < k \<and> k < col \<longrightarrow> \<not> quoteAt ln k)
      \<and> quoteAt ln e \<and> col < e \<and> (\<forall>k. col < k \<and> k < e \<longrightarrow> \<not> quoteAt ln k)"
  then have st: "fst (quoteLoop ln col 0 0 col) = s"
    by (intro quoteLoop_start_some) simp_all
  from a have en: "snd (quoteLoop ln col 0 0 col) = e"
    by (intro quoteLoop_end_some) simp_all
  from a have "s < length ln" "s < e" by (simp_all add: quoteAt_def)
  from substring_between[OF this] st en a
  show "hoverValue ln col = Some (take (e - Suc s) (drop (Suc s) ln))"
    and "definitionValue ln col = take (e - Suc s) (drop (Suc s) ln)"
    by (auto simp: hoverValue_def definitionValue_def quoteBounds_def split: prod.splits)
next
  assume a: "quoteAt ln s \<and> 0 < s \<and> s < col \<and> (\<forall>k. s < k \<and> k < col \<longrightarrow> \<not> quoteAt ln k)
      \<and> (\<forall>k. col < k \<longrightarrow> \<not> quoteAt ln k)"
  then have st: "fst (quoteLoop ln col 0 0 col) = s"
    by (intro quoteLoop_start_some) simp_all
  from a have en: "snd (quoteLoop ln col 0 0 col) = col"
    by (intro quoteLoop_end_none) simp
  from a have "s < length ln" "s < col" by (simp_all add: quoteAt_def)
  from substring_between[OF this] st en a
  show "hoverValue ln col = Some (take (col - Suc s) (drop (Suc s) ln))"
    and "definitionValue ln col = take (col - Suc s) (drop (Suc s) ln)"
    by (auto simp: hoverValue_def definitionValue_def quoteBounds_def split: prod.splits)
next
  assume a: "\<forall>k. k < col \<longrightarrow> \<not> quoteAt ln k"
  then have st: "fst (quoteLoop ln col 0 0 col) = 0"
    by (intro quoteLoop_start_none) simp
  then show h: "hoverValue ln col = None" and "definitionValue ln col = []"
    by (auto simp: hoverValue_def definitionValue_def quoteBounds_def split: prod.splits)
  fix assets d p
  assume "lineAt d p = Inr ln \<and> character p = col"
  with h show "provideHover assets d p = Inr None"
    by (simp add: provideHover_def)
qed

lemma quote_indices_hover_line: "quote_indices hover_line = [17, 34, 39, 44]"
  by code_simp

lemma quote_indices_open_line: "quote_indices open_line = [17]"
  by code_simp

theorem string_under_cursor_witness:
  "hoverValue hover_line 25 = Some ''/images/logo.png''
   \<and> definitionValue hover_line 25 = ''/images/logo.png''
   \<and> hoverValue open_line 25 = Some ''/images''
   \<and> definitionValue open_line 25 = ''/images''
   \<and> hoverValue hover_line 5 = None \<and> definitionValue hover_line 5 = []
   \<and> provideHover (\<lambda>v. []) hover_line \<lparr>line = 0, character = 5\<rparr> = Inr None"
proof -
  have 1: "quoteAt hover_line 17 \<and> 0 < (17::nat) \<and> (17::nat) < 25
      \<and> (\<forall>k. 17 < k \<and> k < 25 \<longrightarrow> \<not> quoteAt hover_line k)
      \<and> quoteAt hover_line 34 \<and> (25::nat) < 34
      \<and> (\<forall>k. 25 < k \<and> k < 34 \<longrightarrow> \<not> quoteAt hover_line k)"
    by (auto simp: quoteAt_iff quote_indices_hover_line)
  have 2: "quoteAt open_line 17 \<and> 0 < (17::nat) \<and> (17::nat) < 25
      \<and> (\<forall>k. 17 < k \<and> k < 25 \<longrightarrow> \<not> quoteAt open_line k)
      \<and> (\<forall>k. 25 < k \<longrightarrow> \<not> quoteAt open_line k)"
    by (auto simp: quoteAt_iff quote_indices_open_line)
  have 3: "\<forall>k. k < 5 \<longrightarrow> \<not> quoteAt hover_line k"
    by (auto simp: quoteAt_iff quote_indices_hover_line)
  have 4: "lineAt hover_line \<lparr>line = 0, character = 5\<rparr> = Inr hover_line
      \<and> character \<lparr>line = 0, character = 5\<rparr> = 5"
    by code_simp
  have v1: "take (34 - Suc 17) (drop (Suc 17) hover_line) = ''/images/logo.png''"
    by code_simp
  have v2: "take (25 - Suc 17) (drop (Suc 17) open_line) = ''/images''"
    by code_simp
  note f3 = string_under_cursor[of hover_line 0 5 0, THEN conjunct2, THEN conjunct2, THEN mp, OF 3]
  from string_under_cursor[of hover_line 17 25 34, THEN conjunct1, THEN mp, OF 1]
    string_under_cursor[of open_line 17 25 0, THEN conjunct2, THEN conjunct1, THEN mp, OF 2]
    f3[THEN conjunct1] f3[THEN conjunct2, THEN conjunct1]
    f3[THEN conjunct2, THEN conjunct2, rule_format, OF 4]
  show ?thesis unfolding v1 v2 by (intro conjI) (simp_all only: simp_thms)
qed

text \<open>The claim as it stands fails where no quote follows the cursor: the line holds one
  quote only, and still a value is taken, and a hover is returned for the image.\<close>

theorem string_under_cursor_counterexample:
  "quote_indices open_line = [17]
   \<and> definitionValue open_line 30 = ''/images/logo''
   \<and> provideHover (\<lambda>v. []) open_line \<lparr>line = 0, character = 30\<rparr> =
       Inr (Some \<lparr>contents = ''Image not found'', hover_range = mkRange 0 18 0 30\<rparr>)"
  by code_simp

text \<open>Where the line opens with the quote, at index 0, the index is taken for "no quote
  found": no value is taken although the cursor stands between two quotes.\<close>

lemma quote_at_column_0:
  "hoverValue ([dquote] @ ''.title'' @ [dquote] @ '': {'') 3 = None
   \<and> definitionValue ([dquote] @ ''.title'' @ [dquote] @ '': {'') 3 = []"
  by code_simp

subsection \<open>getReferences over several files\<close>

lemma exec_not_global: "\<not> global rx \<Longrightarrow> snd (exec rx s) = rx"
  by (simp add: exec_def Let_def split: option.splits prod.splits)

text \<open>With a pattern that is not global every file is searched from its start: the result
  is the concatenation, over the files that open with text, of the entries of their first
  match.\<close>

lemma getReferences_loop_not_global:
  "\<not> global regExp \<Longrightarrow>
   getReferences_loop openDoc callback files regExp definitions =
     definitions @ concat (map (\<lambda>file.
       case openDoc file of
         None \<Rightarrow> []
       | Some document \<Rightarrow>
           if document = [] then []
           else (case fst (exec regExp document) of
                   None \<Rightarrow> []
                 | Some matches \<Rightarrow>
                     map (\<lambda>match. callback file
                            (mkRange (line (positionAt document (index matches)))
                               (character (positionAt document (index matches)))
                               (line (positionAt document (index matches))) 0))
                       (elems matches))) files)"
proof (induction files arbitrary: definitions)
  case Nil
  then show ?case by simp
next
  case (Cons f fs)
  from exec_not_global[OF Cons.prems] have e: "\<And>s. exec regExp s = (fst (exec regExp s), regExp)"
    by (metis prod.collapse)
  show ?case
  proof (cases "openDoc f")
    case None
    with Cons show ?thesis by simp
  next
    case (Some document)
    show ?thesis
    proof (cases "fst (exec regExp document)")
      case None
      with Some Cons e[of document] show ?thesis
        by (cases "exec regExp document") (auto simp: Let_def)
    next
      case m: (Some matches)
      with Some Cons e[of document] show ?thesis
        by (cases "exec regExp document") (auto simp: Let_def)
    qed
  qed
qed

text \<open>
  Claim C5. \<open>getReferences\<close> passes over a file that cannot be opened and goes on; but the
  claim also promises an entry for every other file whose text matches the pattern, and a
  global pattern (as \<^verbatim>\<open>definitionRegExp\<close> builds them) keeps its \<^verbatim>\<open>lastIndex\<close> from
  one file to the next. Here both style sheets hold \<^verbatim>\<open>".btn"\<close>; the first match ends at
  offset 19, so the second file, 24 characters long with its match at offset 0, is searched
  from offset 19 and yields no entry. The same pattern without the flag finds both.
\<close>

theorem getReferences_stale_lastIndex:
  "getReferences style_docs
     (Files [''/app/styles/index.tss'', ''/app/styles/missing.tss'', ''/app/styles/app.tss''])
     (regex_g re_btn) (\<lambda>file r. \<lparr>uri = file, location_range = r\<rparr>) =
     [\<lparr>uri = ''/app/styles/index.tss'', location_range = mkRange 0 13 0 0\<rparr>]
   \<and> (\<exists>document. style_docs ''/app/styles/app.tss'' = Some document \<and> 0 < length document
         \<and> tests re_btn document)
   \<and> getReferences style_docs
     (Files [''/app/styles/index.tss'', ''/app/styles/missing.tss'', ''/app/styles/app.tss''])
     (regex re_btn) (\<lambda>file r. \<lparr>uri = file, location_range = r\<rparr>) =
     [\<lparr>uri = ''/app/styles/index.tss'', location_range = mkRange 0 13 0 0\<rparr>,
      \<lparr>uri = ''/app/styles/app.tss'', location_range = mkRange 0 0 0 0\<rparr>]"
proof (intro conjI)
  show "getReferences style_docs
     (Files [''/app/styles/index.tss'', ''/app/styles/missing.tss'', ''/app/styles/app.tss''])
     (regex_g re_btn) (\<lambda>file r. \<lparr>uri = file, location_range = r\<rparr>) =
     [\<lparr>uri = ''/app/styles/index.tss'', location_range = mkRange 0 13 0 0\<rparr>]"
    by code_simp
  have "0 < length ([dquote] @ ''.btn'' @ [dquote] @ '': { color: '' @ [squote] @ ''red'' @ [squote] @ '' }'')
      \<and> tests re_btn ([dquote] @ ''.btn'' @ [dquote] @ '': { color: '' @ [squote] @ ''red'' @ [squote] @ '' }'')"
    by code_simp
  then show "\<exists>document. style_docs ''/app/styles/app.tss'' = Some document \<and> 0 < length document
         \<and> tests re_btn document"
    by (simp add: style_docs_def)
  show "getReferences style_docs
     (Files [''/app/styles/index.tss'', ''/app/styles/missing.tss'', ''/app/styles/app.tss''])
     (regex re_btn) (\<lambda>file r. \<lparr>uri = file, location_range = r\<rparr>) =
     [\<lparr>uri = ''/app/styles/index.tss'', location_range = mkRange 0 13 0 0\<rparr>,
      \<lparr>uri = ''/app/styles/app.tss'', location_range = mkRange 0 0 0 0\<rparr>]"
    by code_simp
qed

section \<open>insertI18nString\<close>

subsection \<open>Offsets and positions\<close>

lemma offsetAt_positionAt:
  "n \<le> length d \<Longrightarrow> offsetAt d (positionAt d n) = n"
proof (induction d n rule: positionAt.induct)
  case (1 n)
  then show ?case by (simp add: offsetAt_def)
next
  case (2 x xs)
  then show ?case by (simp add: offsetAt_def)
next
  case (3 x xs n)
  then have ih: "offsetAt_from xs (line (positionAt xs n)) (character (positionAt xs n)) = n"
    by (simp add: offsetAt_def)
  show ?case
  proof (cases "x = newline")
    case True
    with ih show ?thesis by (simp add: offsetAt_def Let_def)
  next
    case False
    show ?thesis
    proof (cases "line (positionAt xs n)")
      case 0
      with False ih show ?thesis by (simp add: offsetAt_def Let_def)
    next
      case (Suc l)
      with False ih show ?thesis by (simp add: offsetAt_def Let_def)
    qed
  qed
qed

subsection \<open>The first occurrence\<close>

lemma first_at_iff:
  "first_at needle s k \<longleftrightarrow>
     k \<le> length s \<and> prefix needle (drop k s) \<and> (\<forall>j < k. \<not> prefix needle (drop j s))"
  by (auto simp: first_at_def list_all_iff)

lemma indexOf_from_first:
  "first_at needle s k \<Longrightarrow> indexOf_from s needle i = int (i + k)"
proof (induction s arbitrary: i k)
  case Nil
  then show ?case by (simp add: first_at_iff)
next
  case (Cons c s)
  show ?case
  proof (cases k)
    case 0
    with Cons.prems show ?thesis by (simp add: first_at_iff)
  next
    case (Suc k')
    from Cons.prems Suc have n: "\<not> prefix needle (c # s)"
      by (auto simp: first_at_iff)
    from Cons.prems Suc have "first_at needle s k'"
      by (auto simp: first_at_iff)
    from Cons.IH[OF this, of "Suc i"] n Suc show ?thesis by simp
  qed
qed

lemma indexOf_first: "first_at needle s k \<Longrightarrow> indexOf s needle = int k"
  using indexOf_from_first[of needle s k 0] by (simp add: indexOf_def)

subsection \<open>The claim\<close>

text \<open>
  Claim C10, as amended. When the project's i18n directory is known (\<^verbatim>\<open>getI18nPath\<close>
  returns a path that is not empty), \<open>insertI18nString\<close> leaves a default-language
  \<^verbatim>\<open>strings.xml\<close> in place, created with the empty \<^verbatim>\<open><resources>\<close> skeleton when it was
  absent; the new \<^verbatim>\<open><string name="..."></string>\<close> element stands immediately before the
  first \<^verbatim>\<open></resources>\<close> of the file's text, and when the text holds no \<^verbatim>\<open></resources>\<close>
  the text is as it was. No other file changes. When \<^verbatim>\<open>getI18nPath\<close> returns
  \<^verbatim>\<open>undefined\<close> or the empty string, nothing is done: no file is created and none changes.
\<close>

theorem insertI18nString_effect:
  "(getI18nPath config = Some i18nPath \<and> i18nPath \<noteq> [] \<longrightarrow>
      (let path = path_join [i18nPath, defaultI18nLanguage config, ''strings.xml''];
           before = (case fs path of None \<Rightarrow> resources_skeleton | Some document \<Rightarrow> document);
           after = insertI18nString config fs s
       in (\<forall>k. first_at ''</resources>'' before k \<longrightarrow>
                 after path = Some (take k before @ string_element s @ drop k before))
          \<and> (\<not> sublist ''</resources>'' before \<longrightarrow> after path = Some before)
          \<and> after path \<noteq> None
          \<and> (\<forall>q. q \<noteq> path \<longrightarrow> after q = fs q)))
   \<and> (getI18nPath config = None \<or> getI18nPath config = Some [] \<longrightarrow>
        insertI18nString config fs s = fs)"
proof (intro conjI impI)
  assume a: "getI18nPath config = Some i18nPath \<and> i18nPath \<noteq> []"
  define path where "path = path_join [i18nPath, defaultI18nLanguage config, ''strings.xml'']"
  define before where
    "before = (case fs path of None \<Rightarrow> resources_skeleton | Some document \<Rightarrow> document)"
  define fs1 where "fs1 = (if fs path = None then fs(path \<mapsto> resources_skeleton) else fs)"
  have b: "fs1 path = Some before"
    by (auto simp: fs1_def before_def)
  have o: "fs1 q = fs q" if "q \<noteq> path" for q
    using that by (simp add: fs1_def)
  have after: "insertI18nString config fs s =
      (if indexOf before ''</resources>'' \<noteq> - 1
       then fs1(path \<mapsto> edit_insert before (positionAt before (nat (indexOf before ''</resources>'')))
                            (string_element s))
       else fs1)"
  proof (cases "fs path")
    case None
    with a show ?thesis
      unfolding insertI18nString_def fs1_def before_def path_def string_element_def
      by (simp add: Let_def)
  next
    case (Some document)
    with a show ?thesis
      unfolding insertI18nString_def fs1_def before_def path_def string_element_def
      by (simp add: Let_def)
  qed
  have 1: "insertI18nString config fs s path = Some (take k before @ string_element s @ drop k before)"
    if "first_at ''</resources>'' before k" for k
  proof -
    from indexOf_first[OF that] have i: "indexOf before ''</resources>'' = int k" .
    from that have "k \<le> length before" by (simp add: first_at_iff)
    from offsetAt_positionAt[OF this] i show ?thesis
      by (simp add: after edit_insert_def)
  qed
  have 2: "insertI18nString config fs s path = Some before" if "\<not> sublist ''</resources>'' before"
    using that b by (simp add: after indexOf_absent_iff_sublist)
  have 3: "insertI18nString config fs s path \<noteq> None"
    using b by (simp add: after)
  have 4: "insertI18nString config fs s q = fs q" if "q \<noteq> path" for q
    using that o[OF that] by (simp add: after)
  from 1 2 3 4 show "let path = path_join [i18nPath, defaultI18nLanguage config, ''strings.xml''];
           before = (case fs path of None \<Rightarrow> resources_skeleton | Some document \<Rightarrow> document);
           after = insertI18nString config fs s
       in (\<forall>k. first_at ''</resources>'' before k \<longrightarrow>
                 after path = Some (take k before @ string_element s @ drop k before))
          \<and> (\<not> sublist ''</resources>'' before \<longrightarrow> after path = Some before)
          \<and> after path \<noteq> None
          \<and> (\<forall>q. q \<noteq> path \<longrightarrow> after q = fs q)"
    unfolding Let_def path_def[symmetric] before_def[symmetric] by blast
next
  assume "getI18nPath config = None \<or> getI18nPath config = Some []"
  then show "insertI18nString config fs s = fs"
    by (auto simp: insertI18nString_def)
qed

text \<open>In a project without a \<^verbatim>\<open>strings.xml\<close> the file is created and the element stands
  before the closing tag, at offset 51 of the skeleton; a file without the closing tag stays
  as it is.\<close>

theorem insertI18nString_effect_witness:
  "insertI18nString i18n_config no_files ''greeting'' ''/app/i18n/en/strings.xml'' =
     Some (take 51 resources_skeleton @ string_element ''greeting'' @ drop 51 resources_skeleton)
   \<and> insertI18nString i18n_config (no_files(''/app/i18n/en/strings.xml'' \<mapsto> ''<resources>''))
       ''greeting'' ''/app/i18n/en/strings.xml'' = Some ''<resources>''
   \<and> insertI18nString i18n_config no_files ''greeting'' ''/app/tiapp.xml'' = no_files ''/app/tiapp.xml''
   \<and> insertI18nString no_i18n_config (no_files(''/app/tiapp.xml'' \<mapsto> ''<ti:app/>'')) ''greeting'' =
       no_files(''/app/tiapp.xml'' \<mapsto> ''<ti:app/>'')
   \<and> insertI18nString empty_i18n_config no_files ''greeting'' = no_files"
proof -
  let ?path = "''/app/i18n/en/strings.xml''"
  let ?fs2 = "no_files(?path \<mapsto> ''<resources>'')"
  have p: "getI18nPath i18n_config = Some ''/app/i18n'' \<and> ''/app/i18n'' \<noteq> []"
    by (simp add: i18n_config_def)
  have j: "path_join [''/app/i18n'', defaultI18nLanguage i18n_config, ''strings.xml''] = ?path"
    by code_simp
  have b1: "(case no_files ?path of None \<Rightarrow> resources_skeleton | Some document \<Rightarrow> document) =
      resources_skeleton"
    by (simp add: no_files_def)
  have b2: "(case ?fs2 ?path of None \<Rightarrow> resources_skeleton | Some document \<Rightarrow> document) =
      ''<resources>''"
    by simp
  have f: "first_at ''</resources>'' resources_skeleton 51"
    by code_simp
  have n: "\<not> sublist ''</resources>'' ''<resources>''"
    by code_simp
  have q: "''/app/tiapp.xml'' \<noteq> ?path"
    by simp
  have z: "getI18nPath no_i18n_config = None \<or> getI18nPath no_i18n_config = Some []"
    and e: "getI18nPath empty_i18n_config = None \<or> getI18nPath empty_i18n_config = Some []"
    by (simp_all add: no_i18n_config_def empty_i18n_config_def)
  note t1 = insertI18nString_effect[of i18n_config "''/app/i18n''" no_files "''greeting''",
      THEN conjunct1, THEN mp, OF p, unfolded Let_def j b1]
  note t2 = insertI18nString_effect[of i18n_config "''/app/i18n''" ?fs2 "''greeting''",
      THEN conjunct1, THEN mp, OF p, unfolded Let_def j b2]
  note t3 = insertI18nString_effect[of no_i18n_config _ "no_files(''/app/tiapp.xml'' \<mapsto> ''<ti:app/>'')"
      "''greeting''", THEN conjunct2, THEN mp, OF z]
  note t4 = insertI18nString_effect[of empty_i18n_config _ no_files "''greeting''",
      THEN conjunct2, THEN mp, OF e]
  from t1[THEN conjunct1, THEN spec, THEN mp, OF f]
    t2[THEN conjunct2, THEN conjunct1, THEN mp, OF n]
    t1[THEN conjunct2, THEN conjunct2, THEN conjunct2, THEN spec, THEN mp, OF q]
    t3 t4
  show ?thesis by (intro conjI)
qed

text \<open>The claim as it stands fails in a project whose i18n directory is not known: the call
  creates no file.\<close>

theorem insertI18nString_effect_counterexample:
  "getI18nPath no_i18n_config = None
   \<and> insertI18nString no_i18n_config no_files ''greeting'' = no_files
   \<and> no_files (path_join [''/app/i18n'', ''en'', ''strings.xml'']) = None"
  by (simp add: insertI18nString_def no_i18n_config_def no_files_def)

section \<open>installUpdates\<close>

subsection \<open>Updates whose failures are handled\<close>

text \<open>As long as the handling of every failure comes to its end, the updates are gone
  through one after the other in the sorted order, each with its own effects and counter.\<close>

lemma installLoop_handled:
  "list_all (handled env) us \<Longrightarrow>
   installLoop env incr n us c reported =
     (reported @ concat (map (effects_of env incr n) (zip us [c ..< c + length us])),
      c + length us, None)"
proof (induction us arbitrary: c reported)
  case Nil
  then show ?case by simp
next
  case (Cons u us)
  then have u: "handled env u" and us: "list_all (handled env) us"
    by simp_all
  have r: "[c ..< c + length (u # us)] = c # [Suc c ..< Suc c + length us]"
    by (simp add: upt_rec)
  show ?case
  proof (cases "action u (latestVersion u)")
    case Resolved
    then show ?thesis
      unfolding r by (simp add: Cons.IH[OF us] effects_of_def)
  next
    case (Rejected err)
    with u obtain shown where "on_failure env u err = (shown, None)"
      by (cases "on_failure env u err") (simp add: handled_def)
    with Rejected show ?thesis
      unfolding r by (simp add: Cons.IH[OF us] effects_of_def)
  qed
qed

lemma installUpdates_handled:
  assumes "list_all (handled env) updateInfo"
  shows "installUpdates env updateInfo incr =
     (concat (map (effects_of env incr (length updateInfo))
                (zip (sort_key priority updateInfo) [1 ..< Suc (length updateInfo)])),
      Suc (length updateInfo), None)"
    and "sorted (map priority (sort_key priority updateInfo))"
    and "mset (sort_key priority updateInfo) = mset updateInfo"
proof -
  from assms have "list_all (handled env) (sort_key priority updateInfo)"
    by (simp add: list_all_iff)
  from installLoop_handled[OF this, of incr "length updateInfo" 1 "[]"]
  show "installUpdates env updateInfo incr =
     (concat (map (effects_of env incr (length updateInfo))
                (zip (sort_key priority updateInfo) [1 ..< Suc (length updateInfo)])),
      Suc (length updateInfo), None)"
    by (simp add: installUpdates_def)
  show "sorted (map priority (sort_key priority updateInfo))"
    by (rule sorted_sort_key)
  show "mset (sort_key priority updateInfo) = mset updateInfo"
    by (rule mset_sort)
qed

subsection \<open>A rejection without a reason\<close>

text \<open>
  Claim C9. The claim has a failure of one update leave the remaining updates to be
  attempted, and the counter advance once per update. The loop catches the rejection of an
  action, reports the failure, and then reads \<^verbatim>\<open>error.metadata\<close> of what was caught. An
  action that rejects without a reason (\<^verbatim>\<open>Promise.reject()\<close>) is caught as
  \<^verbatim>\<open>undefined\<close>: the read raises a \<^verbatim>\<open>TypeError\<close> inside the \<^verbatim>\<open>catch\<close> block, the call is
  rejected, the counter stays where it was and the updates after it are never attempted.
  Below, the Titanium SDK update comes first by priority and rejects so; the Node.js update
  is not started. Where the same update rejects with an \<^verbatim>\<open>Error\<close>, the failure is shown
  and the Node.js update is installed, as the claim says.
\<close>

theorem installUpdates_rejection_without_reason:
  "installUpdates example_update_env [node_update, sdk_update (Rejected Nullish)] True =
     ([Installing ''Titanium SDK: 9.0.3.GA'' 1 2, ActionCalled ''Titanium SDK'' ''9.0.3.GA'',
       FailedToInstall ''Titanium SDK: 9.0.3.GA'' 1 2, Increment 2],
      1, Some TypeError)
   \<and> installUpdates example_update_env [node_update, sdk_update (Rejected (Raised None))] True =
     ([Installing ''Titanium SDK: 9.0.3.GA'' 1 2, ActionCalled ''Titanium SDK'' ''9.0.3.GA'',
       FailedToInstall ''Titanium SDK: 9.0.3.GA'' 1 2, Increment 2,
       ErrorMessage ''Failed to update to Titanium SDK: 9.0.3.GA'',
       Installing ''Node.js 12'' 2 2, ActionCalled ''Node.js'' ''12.18.0'',
       Installed ''Node.js 12'' 2 2, Increment 2],
      3, None)"
  by code_simp

end
